theory Spec2Isabelle
  imports Main "HOL-Library.Word" "HOL-Library.Multiset"
begin

section \<open>Regular expressions as the two scripts use them\<close>

text \<open>
  Both \<^verbatim>\<open>ses_tester/index.js\<close> and \<^verbatim>\<open>recon/ip_recon.sh\<close> decide with an anchored
  regular expression (\<^verbatim>\<open>^...$\<close>) without back-references or look-around, so a string
  is accepted exactly when the whole string belongs to the expression. A character class
  is a predicate on characters; the matcher works by derivatives and is executable.
\<close>

datatype 'a rexp =
    Fail
  | Eps
  | Cls "'a \<Rightarrow> bool"
  | Alt "'a rexp" "'a rexp"
  | Seq "'a rexp" "'a rexp"
  | Star "'a rexp"

fun nullable :: "'a rexp \<Rightarrow> bool" where
  "nullable Fail = False"
| "nullable Eps = True"
| "nullable (Cls P) = False"
| "nullable (Alt r s) = (nullable r \<or> nullable s)"
| "nullable (Seq r s) = (nullable r \<and> nullable s)"
| "nullable (Star r) = True"

fun deriv :: "'a \<Rightarrow> 'a rexp \<Rightarrow> 'a rexp" where
  "deriv c Fail = Fail"
| "deriv c Eps = Fail"
| "deriv c (Cls P) = (if P c then Eps else Fail)"
| "deriv c (Alt r s) = Alt (deriv c r) (deriv c s)"
| "deriv c (Seq r s) =
     (if nullable r then Alt (Seq (deriv c r) s) (deriv c s) else Seq (deriv c r) s)"
| "deriv c (Star r) = Seq (deriv c r) (Star r)"

fun matches :: "'a rexp \<Rightarrow> 'a list \<Rightarrow> bool" where
  "matches r [] = nullable r"
| "matches r (c # cs) = matches (deriv c r) cs"

text \<open>\<^verbatim>\<open>r+\<close>, and \<^verbatim>\<open>r{0,n}\<close> unrolled into nested options.\<close>

definition plus1 :: "'a rexp \<Rightarrow> 'a rexp" where
  "plus1 r = Seq r (Star r)"

primrec upto_n :: "nat \<Rightarrow> 'a rexp \<Rightarrow> 'a rexp" where
  "upto_n 0 r = Eps"
| "upto_n (Suc n) r = Alt Eps (Seq r (upto_n n r))"

subsection \<open>The language of an expression\<close>

definition conc :: "'a list set \<Rightarrow> 'a list set \<Rightarrow> 'a list set" where
  "conc A B = {u @ v | u v. u \<in> A \<and> v \<in> B}"

inductive_set star :: "'a list set \<Rightarrow> 'a list set" for A :: "'a list set" where
  star_nil: "[] \<in> star A"
| star_app: "u \<in> A \<Longrightarrow> v \<in> star A \<Longrightarrow> u @ v \<in> star A"

fun lang :: "'a rexp \<Rightarrow> 'a list set" where
  "lang Fail = {}"
| "lang Eps = {[]}"
| "lang (Cls P) = {[c] | c. P c}"
| "lang (Alt r s) = lang r \<union> lang s"
| "lang (Seq r s) = conc (lang r) (lang s)"
| "lang (Star r) = star (lang r)"

section \<open>ses\_tester: JavaScript strings\<close>

text \<open>
  A JavaScript string is a sequence of UTF-16 code units, and a regular expression without
  the \<^verbatim>\<open>u\<close> flag matches code unit by code unit. \<open>js\<close> embeds a Latin-1 literal.
\<close>

type_synonym jschar = "16 word"
type_synonym jsstring = "jschar list"

definition js :: "string \<Rightarrow> jsstring" where
  "js s = map of_char s"

text \<open>
  The class \<^verbatim>\<open>\s\<close> of ECMAScript: WhiteSpace (TAB, VT, FF, SP, NBSP, ZWNBSP and the
  Unicode space separators) and LineTerminator (LF, CR, LS, PS).
\<close>

definition js_space :: "jschar \<Rightarrow> bool" where
  "js_space c \<longleftrightarrow>
     c \<in> {0x09, 0x0A, 0x0B, 0x0C, 0x0D, 0x20, 0xA0, 0x1680, 0x2028, 0x2029, 0x202F,
          0x205F, 0x3000, 0xFEFF}
     \<or> (0x2000 \<le> c \<and> c \<le> 0x200A)"

definition at_sign :: jschar where
  "at_sign = 0x40"

definition full_stop :: jschar where
  "full_stop = 0x2E"

text \<open>The class \<^verbatim>\<open>[^\s@]\<close>.\<close>

definition not_space_at :: "jschar \<Rightarrow> bool" where
  "not_space_at c \<longleftrightarrow> \<not> js_space c \<and> c \<noteq> at_sign"

text \<open>\<^verbatim>\<open>/^[^\s@]+@[^\s@]+\.[^\s@]+$/\<close>\<close>

definition emailRegex :: "jschar rexp" where
  "emailRegex =
     Seq (plus1 (Cls not_space_at))
       (Seq (Cls (\<lambda>c. c = at_sign))
         (Seq (plus1 (Cls not_space_at))
           (Seq (Cls (\<lambda>c. c = full_stop))
             (plus1 (Cls not_space_at)))))"

definition isValidEmail :: "jsstring \<Rightarrow> bool" where
  "isValidEmail email = matches emailRegex email"

text \<open>
  The shape the specification gives a recipient: local part, \<^verbatim>\<open>@\<close>, domain part, both
  non-empty, no whitespace anywhere, nothing more asked of the domain part.
\<close>

definition spec_address_shape :: "jsstring \<Rightarrow> bool" where
  "spec_address_shape s \<longleftrightarrow>
     list_ex (\<lambda>i. 0 < i \<and> Suc i < length s \<and> s ! i = at_sign) [0..<length s]
     \<and> \<not> list_ex js_space s"


section \<open>ses\_tester: the provider, the effects and the results\<close>

text \<open>
  \<^verbatim>\<open>sesClient.send\<close> is the one external operation. It is a parameter of the model: from
  its own state and the request it either rejects with an error, of which the program
  reads only \<^verbatim>\<open>message\<close>, or fulfils with data, of which the program reads only
  \<^verbatim>\<open>MessageId\<close>. Requests reach it in the order the program issues them.
\<close>

record send_params =
  ToAddresses :: "jsstring list"
  Html :: jsstring
  Text :: jsstring
  Subject :: jsstring
  Source :: jsstring

type_synonym answer = "jsstring + jsstring"

type_synonym 'p provider = "'p \<Rightarrow> send_params \<Rightarrow> answer \<times> 'p"

text \<open>
  Every effect of a run, in program order: the slice taken for a window, a request to the
  provider, console output (the arguments of the call), a push onto one of the two result
  arrays, a timer.
\<close>

datatype event =
    Slice "jsstring list"
  | Call send_params
  | ConsoleLog "jsstring list"
  | ConsoleError "jsstring list"
  | PushSuccessful jsstring jsstring
  | PushFailed jsstring jsstring
  | Sleep nat

record 'p world =
  service :: 'p
  trace :: "event list"

definition emit :: "event \<Rightarrow> 'p world \<Rightarrow> 'p world" where
  "emit e w = w\<lparr>trace := trace w @ [e]\<rparr>"

record results =
  successful :: "(jsstring \<times> jsstring) list"
  failed :: "(jsstring \<times> jsstring) list"

text \<open>
  The optional arguments of \<^verbatim>\<open>sendEmail\<close>. For the subject \<open>None\<close> is \<^verbatim>\<open>undefined\<close>,
  which the default parameter replaces; for the two bodies \<open>None\<close> is \<^verbatim>\<open>null\<close> or
  \<^verbatim>\<open>undefined\<close>.
\<close>

record message =
  subject :: "jsstring option"
  htmlContent :: "jsstring option"
  textContent :: "jsstring option"

definition SENDER_EMAIL :: jsstring where
  "SENDER_EMAIL = js ''furbreeze_synack@proton.me''"

definition BATCH_SIZE :: nat where
  "BATCH_SIZE = 50"

definition DELAY_BETWEEN_BATCHES :: nat where
  "DELAY_BETWEEN_BATCHES = 1000"

text \<open>\<^verbatim>\<open>v || d\<close> on a string or null: the empty string is falsy too.\<close>

definition or_default :: "jsstring option \<Rightarrow> jsstring \<Rightarrow> jsstring" where
  "or_default v d = (case v of None \<Rightarrow> d | Some s \<Rightarrow> if s = [] then d else s)"

definition make_params :: "jsstring \<Rightarrow> message \<Rightarrow> send_params" where
  "make_params toAddr msg =
     \<lparr>ToAddresses = [toAddr],
      Html = or_default (htmlContent msg)
               (js ''<html><body><p>This is a test email from AWS SES!</p></body></html>''),
      Text = or_default (textContent msg) (js ''This is a test email from AWS SES.''),
      Subject = (case subject msg of None \<Rightarrow> js ''Test Email'' | Some s \<Rightarrow> s),
      Source = SENDER_EMAIL\<rparr>"

subsection \<open>sendEmail\<close>

text \<open>
  \<^verbatim>\<open>sendEmail\<close> is an async function. Up to its \<^verbatim>\<open>await\<close> it runs inside the caller's
  \<^verbatim>\<open>map\<close>: it either throws on an invalid address, before any request, or issues the
  request. What is left of it runs when the request settles: it logs, and returns the
  message id or throws the provider's error again.
\<close>

datatype pending = Thrown jsstring | Awaiting answer

definition sendEmail_call ::
  "'p provider \<Rightarrow> jsstring \<Rightarrow> message \<Rightarrow> 'p world \<Rightarrow> pending \<times> 'p world" where
  "sendEmail_call prov toAddr msg w =
     (if \<not> isValidEmail toAddr then (Thrown (js ''Invalid email address: '' @ toAddr), w)
      else let params = make_params toAddr msg;
               (ans, s') = prov (service w) params
           in (Awaiting ans, emit (Call params) (w\<lparr>service := s'\<rparr>)))"

definition sendEmail_resume ::
  "jsstring \<Rightarrow> pending \<Rightarrow> results \<times> 'p world \<Rightarrow> answer \<times> results \<times> 'p world" where
  "sendEmail_resume toAddr p st =
     (case p of
        Thrown err \<Rightarrow> (Inl err, st)
      | Awaiting (Inr messageId) \<Rightarrow>
          (Inr messageId,
           fst st,
           emit (ConsoleLog [js ''Email sent successfully to '' @ toAddr @ js '':'', messageId])
             (snd st))
      | Awaiting (Inl err) \<Rightarrow>
          (Inl err,
           fst st,
           emit (ConsoleError [js ''Error sending email to '' @ toAddr @ js '':'', err])
             (snd st)))"

subsection \<open>Promises\<close>

text \<open>
  A settled promise is \<open>Inr\<close> its value or \<open>Inl\<close> its rejection. \<^verbatim>\<open>.then(f)\<close> runs \<open>f\<close>
  on a value and passes a rejection on; \<^verbatim>\<open>.catch(g)\<close> runs \<open>g\<close> on a rejection and passes
  a value on. \<^verbatim>\<open>Promise.all\<close> rejects with the first rejection among its promises; the
  array it fulfils with is not read by this program.
\<close>

definition then_p ::
  "('a \<Rightarrow> 's \<Rightarrow> ('e + 'b) \<times> 's) \<Rightarrow> ('e + 'a) \<times> 's \<Rightarrow> ('e + 'b) \<times> 's" where
  "then_p f p = (case fst p of Inr v \<Rightarrow> f v (snd p) | Inl e \<Rightarrow> (Inl e, snd p))"

definition catch_p ::
  "('e \<Rightarrow> 's \<Rightarrow> ('e + 'a) \<times> 's) \<Rightarrow> ('e + 'a) \<times> 's \<Rightarrow> ('e + 'a) \<times> 's" where
  "catch_p g p = (case fst p of Inl e \<Rightarrow> g e (snd p) | Inr v \<Rightarrow> (Inr v, snd p))"

definition promise_all :: "('e + 'a) list \<Rightarrow> 'e + unit" where
  "promise_all ps = (case [e. Inl e \<leftarrow> ps] of [] \<Rightarrow> Inr () | e # _ \<Rightarrow> Inl e)"

subsection \<open>sendBatchEmails\<close>

text \<open>The two handlers of lines 69 and 70; \<^verbatim>\<open>push\<close> returns the new length.\<close>

definition on_fulfilled ::
  "jsstring \<Rightarrow> jsstring \<Rightarrow> results \<times> 'p world \<Rightarrow> (jsstring + nat) \<times> results \<times> 'p world" where
  "on_fulfilled email messageId st =
     (let res = (fst st)\<lparr>successful := successful (fst st) @ [(email, messageId)]\<rparr>
      in (Inr (length (successful res)), res, emit (PushSuccessful email messageId) (snd st)))"

definition on_rejected ::
  "jsstring \<Rightarrow> jsstring \<Rightarrow> results \<times> 'p world \<Rightarrow> (jsstring + nat) \<times> results \<times> 'p world" where
  "on_rejected email err st =
     (let res = (fst st)\<lparr>failed := failed (fst st) @ [(email, err)]\<rparr>
      in (Inr (length (failed res)), res, emit (PushFailed email err) (snd st)))"

definition settle_one ::
  "jsstring \<Rightarrow> pending \<Rightarrow> results \<times> 'p world \<Rightarrow> (jsstring + nat) \<times> results \<times> 'p world" where
  "settle_one email p st =
     catch_p (on_rejected email) (then_p (on_fulfilled email) (sendEmail_resume email p st))"

text \<open>
  \<^verbatim>\<open>batch.map\<close> calls \<^verbatim>\<open>sendEmail\<close> on the recipients of the window in order, so the
  requests go out in input order.
\<close>

fun issue_all ::
  "'p provider \<Rightarrow> message \<Rightarrow> jsstring list \<Rightarrow> 'p world \<Rightarrow> (jsstring \<times> pending) list \<times> 'p world"
  where
  "issue_all prov msg [] w = ([], w)"
| "issue_all prov msg (email # rest) w =
     (let (p, w1) = sendEmail_call prov email msg w;
          (ps, w2) = issue_all prov msg rest w1
      in ((email, p) # ps, w2))"

text \<open>
  The promises of a window settle in an order the program does not control. The model
  takes it from a latency for each position of the input list: lower latency settles
  first, equal latencies in input order. Every order within a window arises from some
  latency.
\<close>

definition settle_order :: "(nat \<Rightarrow> nat) \<Rightarrow> nat \<Rightarrow> 'a list \<Rightarrow> 'a list" where
  "settle_order latency i ps =
     map snd (sort_key (\<lambda>kp. latency (fst kp)) (zip [i..<i + length ps] ps))"

fun settle_all ::
  "(jsstring \<times> pending) list \<Rightarrow> results \<times> 'p world \<Rightarrow>
     (jsstring + nat) list \<times> results \<times> 'p world" where
  "settle_all [] st = ([], st)"
| "settle_all (ep # rest) st =
     (let (out, st1) = settle_one (fst ep) (snd ep) st;
          (outs, st2) = settle_all rest st1
      in (out # outs, st2))"

text \<open>\<^verbatim>\<open>emailList.slice(i, i + BATCH_SIZE)\<close>\<close>

definition slice :: "nat \<Rightarrow> nat \<Rightarrow> 'a list \<Rightarrow> 'a list" where
  "slice b e xs = take (e - b) (drop b xs)"

text \<open>One pass through the loop body up to and including \<^verbatim>\<open>await Promise.all\<close>.\<close>

definition run_window ::
  "'p provider \<Rightarrow> (nat \<Rightarrow> nat) \<Rightarrow> message \<Rightarrow> nat \<Rightarrow> jsstring list \<Rightarrow> results \<times> 'p world \<Rightarrow>
     (jsstring + unit) \<times> results \<times> 'p world" where
  "run_window prov latency msg i batch st =
     (let (pend, w1) = issue_all prov msg batch (emit (Slice batch) (snd st));
          (outs, st2) = settle_all (settle_order latency i pend) (fst st, w1)
      in (promise_all outs, st2))"

text \<open>
  The \<^verbatim>\<open>for\<close> loop, with the window size and the delay as arguments. With a window size
  of zero the loop of the source would not end, so the result is an option and \<open>None\<close>
  stands for a run that never returns. \<open>Inl\<close> is an exception leaving the function.
\<close>

partial_function (option) batch_loop ::
  "'p provider \<Rightarrow> (nat \<Rightarrow> nat) \<Rightarrow> nat \<Rightarrow> nat \<Rightarrow> message \<Rightarrow> jsstring list \<Rightarrow> nat \<Rightarrow>
     results \<times> 'p world \<Rightarrow> ((jsstring + results) \<times> 'p world) option" where
  "batch_loop prov latency W D msg emailList i st =
     (if i < length emailList then
        (let batch = slice i (i + W) emailList;
             r = run_window prov latency msg i batch st
         in case fst r of
              Inl err \<Rightarrow> Some (Inl err, snd (snd r))
            | Inr _ \<Rightarrow>
                batch_loop prov latency W D msg emailList (i + W)
                  (fst (snd r),
                   if i + W < length emailList then emit (Sleep D) (snd (snd r))
                   else snd (snd r)))
      else Some (Inr (fst st), snd st))"

declare batch_loop.simps [code]

definition sendBatchEmailsWith ::
  "nat \<Rightarrow> nat \<Rightarrow> 'p provider \<Rightarrow> (nat \<Rightarrow> nat) \<Rightarrow> jsstring list \<Rightarrow> message \<Rightarrow> 'p world \<Rightarrow>
     ((jsstring + results) \<times> 'p world) option" where
  "sendBatchEmailsWith W D prov latency emailList msg w =
     batch_loop prov latency W D msg emailList 0 (\<lparr>successful = [], failed = []\<rparr>, w)"

definition sendBatchEmails ::
  "'p provider \<Rightarrow> (nat \<Rightarrow> nat) \<Rightarrow> jsstring list \<Rightarrow> message \<Rightarrow> 'p world \<Rightarrow>
     ((jsstring + results) \<times> 'p world) option" where
  "sendBatchEmails = sendBatchEmailsWith BATCH_SIZE DELAY_BETWEEN_BATCHES"

subsection \<open>main\<close>

text \<open>Decimal digits of a number, as a template literal prints it.\<close>

function digits10 :: "nat \<Rightarrow> jsstring" where
  "digits10 n =
     (if n < 10 then [of_nat (48 + n)] else digits10 (n div 10) @ [of_nat (48 + n mod 10)])"
  by pat_completeness auto
termination
  by (relation "measure id") auto

text \<open>\<^verbatim>\<open>Array.prototype.join\<close>\<close>

fun join :: "jsstring \<Rightarrow> jsstring list \<Rightarrow> jsstring" where
  "join sep [] = []"
| "join sep [x] = x"
| "join sep (x # y # ys) = x @ sep @ join sep (y # ys)"

record 'p exit =
  status :: nat
  final :: "'p world"

definition report :: "results \<Rightarrow> event list" where
  "report res =
     [ConsoleLog [of_char (CHR 0x0A) # js ''Results Summary:''],
      ConsoleLog [js ''Successfully sent: '' @ digits10 (length (successful res))],
      ConsoleLog [js ''Failed: '' @ digits10 (length (failed res))]]
     @ (if length (failed res) > 0
        then ConsoleLog [of_char (CHR 0x0A) # js ''Failed emails:'']
             # map (\<lambda>f. ConsoleLog [fst f @ js '': '' @ snd f]) (failed res)
        else [])"

definition test_message :: message where
  "test_message =
     \<lparr>subject = Some (js ''Test Email''),
      htmlContent =
        Some (js ''<html><body><p>This is a test email from AWS SES!</p></body></html>''),
      textContent = Some (js ''This is a test email from AWS SES.'')\<rparr>"

text \<open>
  \<open>argv\<close> is \<^verbatim>\<open>process.argv\<close>. \<^verbatim>\<open>process.exit(1)\<close> ends the run at once with status 1;
  a run that reaches the end of \<^verbatim>\<open>main\<close> ends with status 0. The body of \<^verbatim>\<open>main\<close> is
  written with the call it awaits inside \<^verbatim>\<open>try\<close> as an argument, so that the
  \<^verbatim>\<open>catch\<close> block has a meaning for whatever that call may throw; \<^verbatim>\<open>main\<close> itself
  awaits \<^verbatim>\<open>sendBatchEmails\<close>.
\<close>

type_synonym 'p dispatcher =
  "jsstring list \<Rightarrow> message \<Rightarrow> 'p world \<Rightarrow> ((jsstring + results) \<times> 'p world) option"

definition main_with :: "'p dispatcher \<Rightarrow> jsstring list \<Rightarrow> 'p world \<Rightarrow> 'p exit option" where
  "main_with dispatch argv w =
     (let emailList = drop 2 argv in
      if length emailList = 0 then
        Some \<lparr>status = 1,
              final = emit (ConsoleError
                [js ''Please provide at least one email address as a command line argument'']) w\<rparr>
      else
        let invalidEmails = filter (\<lambda>email. \<not> isValidEmail email) emailList in
        if length invalidEmails > 0 then
          Some \<lparr>status = 1,
                final = emit (ConsoleError
                  [js ''Invalid email addresses found:'', join (js '', '') invalidEmails]) w\<rparr>
        else
          (case dispatch emailList test_message
                  (emit (ConsoleLog [js ''Starting to send emails to ''
                     @ digits10 (length emailList) @ js '' recipients...'']) w) of
             None \<Rightarrow> None
           | Some (Inl err, w1) \<Rightarrow>
               Some \<lparr>status = 1, final = emit (ConsoleError [js ''Fatal error:'', err]) w1\<rparr>
           | Some (Inr res, w1) \<Rightarrow>
               Some \<lparr>status = 0, final = w1\<lparr>trace := trace w1 @ report res\<rparr>\<rparr>))"

definition main ::
  "'p provider \<Rightarrow> (nat \<Rightarrow> nat) \<Rightarrow> jsstring list \<Rightarrow> 'p world \<Rightarrow> 'p exit option" where
  "main prov latency argv w = main_with (sendBatchEmails prov latency) argv w"

subsection \<open>Notions used to state what a run does\<close>

text \<open>What a send comes to: the rejection it ends in, or the message id.\<close>

definition verdict :: "pending \<Rightarrow> answer" where
  "verdict p = (case p of Thrown err \<Rightarrow> Inl err | Awaiting a \<Rightarrow> a)"

text \<open>
  What each recipient of a list comes to when \<^verbatim>\<open>sendEmail\<close> is called on them one after
  the other in input order, starting from the provider state of \<open>w\<close>.
\<close>

definition outcomes ::
  "'p provider \<Rightarrow> message \<Rightarrow> jsstring list \<Rightarrow> 'p world \<Rightarrow> (jsstring \<times> answer) list" where
  "outcomes prov msg emailList w =
     map (\<lambda>ep. (fst ep, verdict (snd ep))) (fst (issue_all prov msg emailList w))"

definition delivered :: "(jsstring \<times> answer) list \<Rightarrow> (jsstring \<times> jsstring) list" where
  "delivered os = map (\<lambda>ea. (fst ea, projr (snd ea))) (filter (\<lambda>ea. \<not> isl (snd ea)) os)"

definition refused :: "(jsstring \<times> answer) list \<Rightarrow> (jsstring \<times> jsstring) list" where
  "refused os = map (\<lambda>ea. (fst ea, projl (snd ea))) (filter (\<lambda>ea. isl (snd ea)) os)"

text \<open>
  The partition the specification describes: consecutive windows of \<open>W\<close> recipients, the
  last one possibly shorter.
\<close>

definition windows :: "nat \<Rightarrow> 'a list \<Rightarrow> 'a list list" where
  "windows W xs = map (\<lambda>k. take W (drop (k * W) xs)) [0..<(length xs + W - 1) div W]"

text \<open>Segments of a trace with one separating event between neighbours.\<close>

fun join_events :: "event \<Rightarrow> event list list \<Rightarrow> event list" where
  "join_events sep [] = []"
| "join_events sep [s] = s"
| "join_events sep (s # t # ss) = s @ sep # join_events sep (t # ss)"

text \<open>
  The events of one window: the slice, then one request for each valid recipient of the
  window in input order, then only events of settling (console output of
  \<^verbatim>\<open>sendEmail\<close> and pushes), with one push for each recipient of the window.
\<close>

definition is_settle :: "event \<Rightarrow> bool" where
  "is_settle e =
     (case e of ConsoleLog _ \<Rightarrow> True | ConsoleError _ \<Rightarrow> True | PushSuccessful _ _ \<Rightarrow> True
      | PushFailed _ _ \<Rightarrow> True | _ \<Rightarrow> False)"

definition pushed :: "event list \<Rightarrow> jsstring list" where
  "pushed evs =
     concat (map (\<lambda>e. case e of PushSuccessful a _ \<Rightarrow> [a] | PushFailed a _ \<Rightarrow> [a] | _ \<Rightarrow> []) evs)"

definition requests :: "message \<Rightarrow> jsstring list \<Rightarrow> event list" where
  "requests msg batch = map (\<lambda>a. Call (make_params a msg)) (filter isValidEmail batch)"

definition window_segment :: "message \<Rightarrow> jsstring list \<Rightarrow> event list \<Rightarrow> bool" where
  "window_segment msg batch seg \<longleftrightarrow>
     take (Suc (length (requests msg batch))) seg = Slice batch # requests msg batch
     \<and> list_all is_settle (drop (Suc (length (requests msg batch))) seg)
     \<and> mset (pushed (drop (Suc (length (requests msg batch))) seg)) = mset batch"

text \<open>
  The second half of claim C4 in its own words: every recipient of the input is in
  exactly one of the two sequences.
\<close>

definition in_exactly_one :: "jsstring list \<Rightarrow> results \<Rightarrow> bool" where
  "in_exactly_one emailList res \<longleftrightarrow>
     list_all (\<lambda>a. (a \<in> set (map fst (successful res))) \<noteq> (a \<in> set (map fst (failed res))))
       emailList"

definition slices :: "event list \<Rightarrow> jsstring list list" where
  "slices evs = concat (map (\<lambda>e. case e of Slice b \<Rightarrow> [b] | _ \<Rightarrow> []) evs)"

definition calls :: "event list \<Rightarrow> send_params list" where
  "calls evs = concat (map (\<lambda>e. case e of Call p \<Rightarrow> [p] | _ \<Rightarrow> []) evs)"

definition sleeps :: "event list \<Rightarrow> nat list" where
  "sleeps evs = concat (map (\<lambda>e. case e of Sleep d \<Rightarrow> [d] | _ \<Rightarrow> []) evs)"

subsection \<open>A sample provider and sample inputs\<close>

text \<open>
  A provider that counts its requests, accepts the even ones and throttles the odd ones;
  a run starts with no request made and an empty trace.
\<close>

definition flaky :: "nat provider" where
  "flaky n p = (if even n then Inr (js ''id-'' @ digits10 n) else Inl (js ''Throttling''), Suc n)"

definition fresh :: "nat world" where
  "fresh = \<lparr>service = 0, trace = []\<rparr>"

definition three :: "jsstring list" where
  "three = [js ''a@b.c'', js ''nobody'', js ''d@e.f'']"

definition two_valid :: "jsstring list" where
  "two_valid = [js ''a@b.c'', js ''d@e.f'']"

definition two_same :: "jsstring list" where
  "two_same = [js ''a@b.c'', js ''a@b.c'']"


section \<open>recon/ip\_recon.sh: the loop that writes out.txt\<close>

text \<open>
  A line of \<^verbatim>\<open>tmp.txt\<close> is a string of bytes; \<^verbatim>\<open>sort -u\<close> wrote the file, so every
  line ends in a newline and \<^verbatim>\<open>read\<close> sees each of them. The ranges of the bracket
  expressions are those of the C locale. Inside the brackets bash hands \<^verbatim>\<open>\-\<close> to the
  matcher as a plain hyphen.
\<close>

definition alnum :: "char \<Rightarrow> bool" where
  "alnum c \<longleftrightarrow>
     c \<in> set (''abcdefghijklmnopqrstuvwxyz'' @ ''ABCDEFGHIJKLMNOPQRSTUVWXYZ'' @ ''0123456789'')"

definition alnum_hyphen :: "char \<Rightarrow> bool" where
  "alnum_hyphen c \<longleftrightarrow> alnum c \<or> c = CHR ''-''"

text \<open>\<^verbatim>\<open>([a-zA-Z0-9]|[a-zA-Z0-9][a-zA-Z0-9\-]{0,61}[a-zA-Z0-9])\<close>\<close>

definition labelRegex :: "char rexp" where
  "labelRegex =
     Alt (Cls alnum) (Seq (Cls alnum) (Seq (upto_n 61 (Cls alnum_hyphen)) (Cls alnum)))"

text \<open>\<^verbatim>\<open>^label(\.label)*$\<close>\<close>

definition hostRegex :: "char rexp" where
  "hostRegex = Seq labelRegex (Star (Seq (Cls (\<lambda>c. c = CHR ''.'')) labelRegex))"

text \<open>\<^verbatim>\<open>${host%.}\<close>: the value without one trailing full stop, if it has one.\<close>

definition strip_dot :: "string \<Rightarrow> string" where
  "strip_dot host = (if host \<noteq> [] \<and> last host = CHR ''.'' then butlast host else host)"

text \<open>
  The third loop: \<open>tmp\<close> is the list of lines of \<^verbatim>\<open>tmp.txt\<close>, \<open>out\<close> the lines of
  \<^verbatim>\<open>out.txt\<close> so far; \<^verbatim>\<open>echo ... >> out.txt\<close> adds one line.
\<close>

fun out_loop :: "string list \<Rightarrow> string list \<Rightarrow> string list" where
  "out_loop [] out = out"
| "out_loop (host # rest) out =
     (if host \<noteq> [] then
        (let host_stripped = strip_dot host in
         if matches hostRegex host_stripped then out_loop rest (out @ [host_stripped])
         else out_loop rest out)
      else out_loop rest out)"

text \<open>
  The pattern in the words of the claim: labels separated by full stops, each of 1 to 63
  characters that are alphanumeric or a hyphen, the first and the last alphanumeric.
\<close>

fun split_on :: "'a \<Rightarrow> 'a list \<Rightarrow> 'a list list" where
  "split_on c [] = [ [] ]"
| "split_on c (x # xs) =
     (if x = c then [] # split_on c xs
      else (case split_on c xs of [] \<Rightarrow> [ [x] ] | l # ls \<Rightarrow> (x # l) # ls))"

definition label_ok :: "string \<Rightarrow> bool" where
  "label_ok l \<longleftrightarrow>
     1 \<le> length l \<and> length l \<le> 63 \<and> list_all alnum_hyphen l \<and> alnum (hd l) \<and> alnum (last l)"

definition domain_name_ok :: "string \<Rightarrow> bool" where
  "domain_name_ok s \<longleftrightarrow> list_all label_ok (split_on (CHR ''.'') s)"

section \<open>Sample runs, evaluated\<close>

text \<open>
  A run of the dispatcher with windows of two, on three recipients of which the second is
  malformed; within the first window the malformed one settles first. The second request
  to the sample provider is throttled.
\<close>

lemma sample_run:
  "map_option (\<lambda>r. (fst r, slices (trace (snd r)), sleeps (trace (snd r)), pushed (trace (snd r))))
     (sendBatchEmailsWith 2 7 flaky (\<lambda>k. 3 - k) three test_message fresh) =
   Some (Inr \<lparr>successful = [(js ''a@b.c'', js ''id-0'')],
               failed = [(js ''nobody'', js ''Invalid email address: nobody''),
                         (js ''d@e.f'', js ''Throttling'')]\<rparr>,
         [ [js ''a@b.c'', js ''nobody''], [js ''d@e.f''] ],
         [7],
         [js ''nobody'', js ''a@b.c'', js ''d@e.f''])"
  by code_simp

lemma sample_addresses:
  "map isValidEmail
     [js ''a@b.c'', js ''a@b'', js ''a b@c.d'', js ''a@b@c.d'', js ''@b.c'', js ''a@.c'',
      js ''a@b.'', js ''a@b..c'']
   = [True, False, False, False, False, False, False, True]"
  by code_simp

lemma sample_out_loop:
  "out_loop [''example.com.'', '''', ''-bad.example'', ''a..b'', ''host-1.example.org'', ''.'']
     [''old.example''] = [''old.example'', ''example.com'', ''host-1.example.org'']"
  by code_simp

section \<open>Matcher and language agree\<close>

lemma conc_iff: "w \<in> conc A B \<longleftrightarrow> (\<exists>u v. w = u @ v \<and> u \<in> A \<and> v \<in> B)"
  by (auto simp: conc_def)

lemma nullable_lang: "nullable r \<longleftrightarrow> [] \<in> lang r"
  by (induction r) (auto simp: conc_iff intro: star.star_nil)

lemma star_cons_split:
  assumes "w \<in> star A" and "w = c # x"
  shows "\<exists>u v. x = u @ v \<and> c # u \<in> A \<and> v \<in> star A"
  using assms
proof (induction arbitrary: x rule: star.induct)
  case star_nil
  then show ?case by simp
next
  case (star_app u v)
  show ?case
  proof (cases u)
    case Nil
    with star_app show ?thesis by simp
  next
    case (Cons d u')
    with star_app.prems have "d = c" and "x = u' @ v" by simp_all
    with Cons star_app.hyps show ?thesis by blast
  qed
qed

lemma star_cons_iff:
  "c # x \<in> star A \<longleftrightarrow> (\<exists>u v. x = u @ v \<and> c # u \<in> A \<and> v \<in> star A)"
proof
  assume "c # x \<in> star A"
  then show "\<exists>u v. x = u @ v \<and> c # u \<in> A \<and> v \<in> star A"
    by (rule star_cons_split [OF _ refl])
next
  assume "\<exists>u v. x = u @ v \<and> c # u \<in> A \<and> v \<in> star A"
  then obtain u v where "x = u @ v" "c # u \<in> A" "v \<in> star A" by blast
  then show "c # x \<in> star A"
    using star.star_app [of "c # u" A v] by simp
qed

lemma conc_cons_iff:
  "c # x \<in> conc A B \<longleftrightarrow>
     (\<exists>u v. x = u @ v \<and> c # u \<in> A \<and> v \<in> B) \<or> ([] \<in> A \<and> c # x \<in> B)"
  by (auto simp: conc_iff Cons_eq_append_conv)

lemma deriv_lang: "x \<in> lang (deriv c r) \<longleftrightarrow> c # x \<in> lang r"
proof (induction r arbitrary: x)
  case (Seq r s)
  have "x \<in> conc (lang (deriv c r)) (lang s) \<longleftrightarrow>
          (\<exists>u v. x = u @ v \<and> c # u \<in> lang r \<and> v \<in> lang s)"
    using Seq.IH(1) by (simp add: conc_iff)
  then show ?case
    using Seq.IH(2) by (simp add: conc_cons_iff nullable_lang)
next
  case (Star r)
  then show ?case
    by (auto simp: star_cons_iff conc_iff)
qed auto

lemma matches_lang: "matches r w \<longleftrightarrow> w \<in> lang r"
  by (induction w arbitrary: r) (simp_all add: nullable_lang deriv_lang)

lemma star_cls: "w \<in> star {[c] | c. P c} \<longleftrightarrow> (\<forall>c \<in> set w. P c)"
proof
  assume "w \<in> star {[c] | c. P c}"
  then show "\<forall>c \<in> set w. P c"
    by (induction rule: star.induct) auto
next
  assume "\<forall>c \<in> set w. P c"
  then show "w \<in> star {[c] | c. P c}"
  proof (induction w)
    case Nil
    show ?case by (rule star.star_nil)
  next
    case (Cons d w)
    then have "[d] \<in> {[c] | c. P c}" and "w \<in> star {[c] | c. P c}" by auto
    then show ?case using star.star_app [of "[d]" _ w] by simp
  qed
qed

lemma lang_plus1_cls:
  "w \<in> lang (plus1 (Cls P)) \<longleftrightarrow> w \<noteq> [] \<and> (\<forall>c \<in> set w. P c)"
proof (cases w)
  case Nil
  then show ?thesis by (simp add: plus1_def conc_iff)
next
  case (Cons d x)
  have "[d] \<in> {[c] | c. P c} \<longleftrightarrow> P d" by simp
  then show ?thesis
    unfolding Cons by (auto simp: plus1_def conc_cons_iff star_cls)
qed

section \<open>ses\_tester: address validation\<close>

lemma lang_cls: "w \<in> lang (Cls P) \<longleftrightarrow> (\<exists>c. w = [c] \<and> P c)"
  by auto

text \<open>
  Claim C6, as amended: \<open>isValidEmail\<close> accepts a string exactly when it is a non-empty
  local part, \<^verbatim>\<open>@\<close>, and a domain part that has a full stop with at least one character
  before it and at least one after it, where no character other than the separating
  \<^verbatim>\<open>@\<close> is whitespace or \<^verbatim>\<open>@\<close>.
\<close>

theorem isValidEmail_shape:
  "isValidEmail s \<longleftrightarrow>
     (\<exists>l d t. s = l @ at_sign # d @ full_stop # t \<and> l \<noteq> [] \<and> d \<noteq> [] \<and> t \<noteq> []
        \<and> (\<forall>c \<in> set (l @ d @ t). \<not> js_space c \<and> c \<noteq> at_sign))"
  unfolding isValidEmail_def matches_lang emailRegex_def lang.simps(5) conc_iff lang_plus1_cls
    lang_cls not_space_at_def
  by (auto; blast)

theorem isValidEmail_shape_witness:
  "isValidEmail (js ''a@b.c'') \<and> \<not> isValidEmail (js ''a b@c.d'')"
proof -
  have "js ''a@b.c'' = js ''a'' @ at_sign # js ''b'' @ full_stop # js ''c''"
    by (simp add: js_def at_sign_def full_stop_def)
  moreover have "\<forall>c \<in> set (js ''a'' @ js ''b'' @ js ''c''). \<not> js_space c \<and> c \<noteq> at_sign"
    by (simp add: js_def js_space_def at_sign_def)
  moreover have "js ''a'' \<noteq> [] \<and> js ''b'' \<noteq> [] \<and> js ''c'' \<noteq> []"
    by (simp add: js_def)
  ultimately have yes: "isValidEmail (js ''a@b.c'')"
    unfolding isValidEmail_shape [of "js ''a@b.c''"] by blast
  have "js_space (of_char CHR '' '')"
    by (simp add: js_space_def)
  have no: "\<not> isValidEmail (js ''a b@c.d'')"
  proof
    assume "isValidEmail (js ''a b@c.d'')"
    then obtain l d t where
      eq: "js ''a b@c.d'' = l @ at_sign # d @ full_stop # t"
      and cs: "\<forall>c \<in> set (l @ d @ t). \<not> js_space c \<and> c \<noteq> at_sign"
      unfolding isValidEmail_shape [of "js ''a b@c.d''"] by blast
    have "\<forall>c \<in> set (js ''a b@c.d''). c = at_sign \<or> c = full_stop \<or> \<not> js_space c"
      unfolding eq using cs by auto
    then show False
      by (simp add: js_def js_space_def at_sign_def full_stop_def)
  qed
  from yes no show ?thesis ..
qed

text \<open>
  Claim C6 as the specification words it asks nothing of the domain part beyond being
  non-empty. The address \<^verbatim>\<open>a@b\<close> has that shape and is rejected, because the
  expression wants a full stop inside the domain part.
\<close>

theorem isValidEmail_domain_counterexample:
  "spec_address_shape (js ''a@b'') \<and> \<not> isValidEmail (js ''a@b'')"
  by (simp add: spec_address_shape_def isValidEmail_def emailRegex_def plus1_def
      not_space_at_def js_def js_space_def at_sign_def full_stop_def upt_rec)

section \<open>ses\_tester: one recipient\<close>

lemma trace_emit [simp]: "trace (emit e w) = trace w @ [e]"
  by (simp add: emit_def)

lemma service_emit [simp]: "service (emit e w) = service w"
  by (simp add: emit_def)

lemma sendEmail_call_invalid:
  "\<not> isValidEmail a \<Longrightarrow>
     sendEmail_call prov a msg w = (Thrown (js ''Invalid email address: '' @ a), w)"
  by (simp add: sendEmail_call_def)

lemma sendEmail_call_valid:
  "isValidEmail a \<Longrightarrow>
     sendEmail_call prov a msg w =
       (Awaiting (fst (prov (service w) (make_params a msg))),
        emit (Call (make_params a msg))
          (w\<lparr>service := snd (prov (service w) (make_params a msg))\<rparr>))"
  by (simp add: sendEmail_call_def Let_def case_prod_beta)

lemma sendEmail_call_trace:
  "trace (snd (sendEmail_call prov a msg w)) = trace w @ requests msg [a]"
  by (cases "isValidEmail a")
    (simp_all add: sendEmail_call_invalid sendEmail_call_valid requests_def)

lemma sendEmail_call_service:
  "service w = service v \<Longrightarrow>
     fst (sendEmail_call prov a msg w) = fst (sendEmail_call prov a msg v)
     \<and> service (snd (sendEmail_call prov a msg w)) = service (snd (sendEmail_call prov a msg v))"
  by (cases "isValidEmail a") (simp_all add: sendEmail_call_invalid sendEmail_call_valid)

lemma settle_one_Thrown:
  "settle_one a (Thrown err) (res, w) =
     (Inr (Suc (length (failed res))), res\<lparr>failed := failed res @ [(a, err)]\<rparr>,
      emit (PushFailed a err) w)"
  by (simp add: settle_one_def sendEmail_resume_def then_p_def catch_p_def on_rejected_def)

lemma settle_one_Inl:
  "settle_one a (Awaiting (Inl err)) (res, w) =
     (Inr (Suc (length (failed res))), res\<lparr>failed := failed res @ [(a, err)]\<rparr>,
      emit (PushFailed a err)
        (emit (ConsoleError [js ''Error sending email to '' @ a @ js '':'', err]) w))"
  by (simp add: settle_one_def sendEmail_resume_def then_p_def catch_p_def on_rejected_def)

lemma settle_one_Inr:
  "settle_one a (Awaiting (Inr mid)) (res, w) =
     (Inr (Suc (length (successful res))), res\<lparr>successful := successful res @ [(a, mid)]\<rparr>,
      emit (PushSuccessful a mid)
        (emit (ConsoleLog [js ''Email sent successfully to '' @ a @ js '':'', mid]) w))"
  by (simp add: settle_one_def sendEmail_resume_def then_p_def catch_p_def on_fulfilled_def)

lemma settle_one_cases:
  obtains err where "p = Thrown err" "verdict p = Inl err"
  | err where "p = Awaiting (Inl err)" "verdict p = Inl err"
  | mid where "p = Awaiting (Inr mid)" "verdict p = Inr mid"
proof (cases p)
  case (Thrown err)
  then show ?thesis using that(1) by (simp add: verdict_def)
next
  case (Awaiting a)
  then show ?thesis using that(2,3) by (cases a) (simp_all add: verdict_def)
qed

lemma delivered_Nil [simp]: "delivered [] = []"
  by (simp add: delivered_def)

lemma refused_Nil [simp]: "refused [] = []"
  by (simp add: refused_def)

lemma delivered_Cons:
  "delivered ((a, v) # os) = (case v of Inl _ \<Rightarrow> delivered os | Inr mid \<Rightarrow> (a, mid) # delivered os)"
  by (simp add: delivered_def split: sum.splits)

lemma refused_Cons:
  "refused ((a, v) # os) = (case v of Inl err \<Rightarrow> (a, err) # refused os | Inr _ \<Rightarrow> refused os)"
  by (simp add: refused_def split: sum.splits)

lemma delivered_append [simp]: "delivered (xs @ ys) = delivered xs @ delivered ys"
  by (simp add: delivered_def)

lemma refused_append [simp]: "refused (xs @ ys) = refused xs @ refused ys"
  by (simp add: refused_def)

lemma pushed_Nil [simp]: "pushed [] = []"
  by (simp add: pushed_def)

lemma pushed_append [simp]: "pushed (xs @ ys) = pushed xs @ pushed ys"
  by (simp add: pushed_def)

text \<open>Settling one promise: the chain never rejects, and it pushes exactly one record.\<close>

lemma settle_one_props:
  fixes w :: "'p world"
  obtains n res' w' sevs where
    "settle_one a p (res, w) = (Inr n, res', w')"
    "successful res' = successful res @ delivered [(a, verdict p)]"
    "failed res' = failed res @ refused [(a, verdict p)]"
    "service w' = service w"
    "trace w' = trace w @ sevs"
    "list_all is_settle sevs"
    "pushed sevs = [a]"
proof (cases p rule: settle_one_cases)
  case (1 err)
  show ?thesis
    by (rule that [where sevs = "[PushFailed a err]", OF settle_one_Thrown [of a err res w, folded 1(1)]])
      (simp_all add: 1(2) delivered_Cons refused_Cons is_settle_def pushed_def)
next
  case (2 err)
  show ?thesis
    by (rule that [where sevs =
          "[ConsoleError [js ''Error sending email to '' @ a @ js '':'', err], PushFailed a err]",
          OF settle_one_Inl [of a err res w, folded 2(1)]])
      (simp_all add: 2(2) delivered_Cons refused_Cons is_settle_def pushed_def)
next
  case (3 mid)
  show ?thesis
    by (rule that [where sevs =
          "[ConsoleLog [js ''Email sent successfully to '' @ a @ js '':'', mid],
            PushSuccessful a mid]",
          OF settle_one_Inr [of a mid res w, folded 3(1)]])
      (simp_all add: 3(2) delivered_Cons refused_Cons is_settle_def pushed_def)
qed

section \<open>ses\_tester: one window\<close>

lemma issue_all_emails: "map fst (fst (issue_all prov msg xs w)) = xs"
  by (induction xs arbitrary: w) (simp_all add: case_prod_beta)

lemma issue_all_length: "length (fst (issue_all prov msg xs w)) = length xs"
  using issue_all_emails [of prov msg xs w] by (metis length_map)

lemma requests_Nil [simp]: "requests msg [] = []"
  by (simp add: requests_def)

lemma requests_append [simp]: "requests msg (xs @ ys) = requests msg xs @ requests msg ys"
  by (simp add: requests_def)

lemma requests_Cons: "requests msg (a # xs) = requests msg [a] @ requests msg xs"
  by (simp add: requests_def)

lemma issue_all_trace:
  "trace (snd (issue_all prov msg xs w)) = trace w @ requests msg xs"
proof (induction xs arbitrary: w)
  case Nil
  show ?case by simp
next
  case (Cons a xs)
  show ?case
    by (simp add: case_prod_beta Cons.IH sendEmail_call_trace requests_Cons [of msg a xs])
qed

lemma issue_all_service:
  "service w = service v \<Longrightarrow>
     fst (issue_all prov msg xs w) = fst (issue_all prov msg xs v)
     \<and> service (snd (issue_all prov msg xs w)) = service (snd (issue_all prov msg xs v))"
proof (induction xs arbitrary: w v)
  case Nil
  then show ?case by simp
next
  case (Cons a xs)
  from sendEmail_call_service [OF Cons.prems, of prov a msg]
  have 1: "fst (sendEmail_call prov a msg w) = fst (sendEmail_call prov a msg v)"
    and 2: "service (snd (sendEmail_call prov a msg w)) = service (snd (sendEmail_call prov a msg v))"
    by simp_all
  from Cons.IH [OF 2] 1 show ?case
    by (simp add: case_prod_beta)
qed

lemma issue_all_append:
  "issue_all prov msg (xs @ ys) w =
     (fst (issue_all prov msg xs w) @ fst (issue_all prov msg ys (snd (issue_all prov msg xs w))),
      snd (issue_all prov msg ys (snd (issue_all prov msg xs w))))"
  by (induction xs arbitrary: w) (simp_all add: case_prod_beta)

lemma outcomes_append:
  "outcomes prov msg (xs @ ys) w =
     outcomes prov msg xs w @ outcomes prov msg ys (snd (issue_all prov msg xs w))"
  by (simp add: outcomes_def issue_all_append)

lemma outcomes_service:
  "service w = service v \<Longrightarrow> outcomes prov msg xs w = outcomes prov msg xs v"
  using issue_all_service [of w v prov msg xs] by (simp add: outcomes_def)

lemma outcomes_emails: "map fst (outcomes prov msg xs w) = xs"
  using issue_all_emails [of prov msg xs w] by (simp add: outcomes_def comp_def)

lemma promise_all_Cons_Inr [simp]: "promise_all (Inr n # outs) = promise_all outs"
  by (simp add: promise_all_def)

lemma promise_all_Nil [simp]: "promise_all [] = Inr ()"
  by (simp add: promise_all_def)

text \<open>Settling a list of pending sends, in the order of the list.\<close>

lemma settle_all_props:
  fixes w :: "'p world"
  shows "\<exists>outs res' w' sevs.
     settle_all ps (res, w) = (outs, res', w')
     \<and> promise_all outs = Inr ()
     \<and> successful res' = successful res @ delivered (map (\<lambda>ep. (fst ep, verdict (snd ep))) ps)
     \<and> failed res' = failed res @ refused (map (\<lambda>ep. (fst ep, verdict (snd ep))) ps)
     \<and> service w' = service w
     \<and> trace w' = trace w @ sevs
     \<and> list_all is_settle sevs
     \<and> pushed sevs = map fst ps"
proof (induction ps arbitrary: res w)
  case Nil
  show ?case by simp
next
  case (Cons ep ps)
  obtain n res1 w1 sevs1 where one:
    "settle_one (fst ep) (snd ep) (res, w) = (Inr n, res1, w1)"
    "successful res1 = successful res @ delivered [(fst ep, verdict (snd ep))]"
    "failed res1 = failed res @ refused [(fst ep, verdict (snd ep))]"
    "service w1 = service w"
    "trace w1 = trace w @ sevs1"
    "list_all is_settle sevs1"
    "pushed sevs1 = [fst ep]"
    by (rule settle_one_props [of "fst ep" "snd ep" res w])
  from Cons.IH [of res1 w1] obtain outs res' w' sevs where rest:
    "settle_all ps (res1, w1) = (outs, res', w')"
    "promise_all outs = Inr ()"
    "successful res' = successful res1 @ delivered (map (\<lambda>ep. (fst ep, verdict (snd ep))) ps)"
    "failed res' = failed res1 @ refused (map (\<lambda>ep. (fst ep, verdict (snd ep))) ps)"
    "service w' = service w1"
    "trace w' = trace w1 @ sevs"
    "list_all is_settle sevs"
    "pushed sevs = map fst ps"
    by blast
  have app: "map (\<lambda>ep. (fst ep, verdict (snd ep))) (ep # ps) =
      [(fst ep, verdict (snd ep))] @ map (\<lambda>ep. (fst ep, verdict (snd ep))) ps"
    by simp
  have "settle_all (ep # ps) (res, w) = (Inr n # outs, res', w')"
    by (simp add: one(1) rest(1))
  moreover have "promise_all (Inr n # outs) = Inr ()"
    by (simp add: rest(2))
  moreover have "successful res' =
      successful res @ delivered (map (\<lambda>ep. (fst ep, verdict (snd ep))) (ep # ps))"
    unfolding app delivered_append by (simp add: rest(3) one(2))
  moreover have "failed res' =
      failed res @ refused (map (\<lambda>ep. (fst ep, verdict (snd ep))) (ep # ps))"
    unfolding app refused_append by (simp add: rest(4) one(3))
  moreover have "service w' = service w"
    by (simp add: rest(5) one(4))
  moreover have "trace w' = trace w @ (sevs1 @ sevs)"
    by (simp add: rest(6) one(5))
  moreover have "list_all is_settle (sevs1 @ sevs)"
    by (simp add: rest(7) one(6))
  moreover have "pushed (sevs1 @ sevs) = map fst (ep # ps)"
    by (simp add: rest(8) one(7))
  ultimately show ?case by blast
qed

lemma settle_order_mset: "mset (settle_order latency i ps) = mset ps"
proof -
  have "map snd (zip [i..<i + length ps] ps) = ps"
    by (simp add: map_snd_zip)
  then have "mset ps = image_mset snd (mset (zip [i..<i + length ps] ps))"
    by (metis mset_map)
  then show ?thesis
    by (simp add: settle_order_def)
qed

lemma delivered_mset: "mset xs = mset ys \<Longrightarrow> mset (delivered xs) = mset (delivered ys)"
  by (simp add: delivered_def)

lemma refused_mset: "mset xs = mset ys \<Longrightarrow> mset (refused xs) = mset (refused ys)"
  by (simp add: refused_def)

lemma run_window_props:
  fixes w :: "'p world"
  shows "\<exists>res' w' seg.
     run_window prov latency msg i batch (res, w) = (Inr (), res', w')
     \<and> mset (successful res') = mset (successful res) + mset (delivered (outcomes prov msg batch w))
     \<and> mset (failed res') = mset (failed res) + mset (refused (outcomes prov msg batch w))
     \<and> service w' = service (snd (issue_all prov msg batch w))
     \<and> trace w' = trace w @ seg
     \<and> window_segment msg batch seg"
proof -
  define w0 where "w0 = emit (Slice batch) w"
  define pend where "pend = fst (issue_all prov msg batch w0)"
  define w1 where "w1 = snd (issue_all prov msg batch w0)"
  define ord where "ord = settle_order latency i pend"
  have "service w0 = service w"
    by (simp add: w0_def)
  from issue_all_service [OF this, of prov msg batch]
  have pend: "pend = fst (issue_all prov msg batch w)"
    and serv: "service w1 = service (snd (issue_all prov msg batch w))"
    by (simp_all add: pend_def w1_def)
  have tr1: "trace w1 = trace w @ Slice batch # requests msg batch"
    by (simp add: w1_def issue_all_trace w0_def)
  have perm: "mset ord = mset pend"
    by (simp add: ord_def settle_order_mset)
  have outs_perm: "mset (map (\<lambda>ep. (fst ep, verdict (snd ep))) ord) = mset (outcomes prov msg batch w)"
    using perm by (simp add: outcomes_def pend)
  have "map fst pend = batch"
    unfolding pend_def by (rule issue_all_emails)
  moreover have "mset (map fst ord) = mset (map fst pend)"
    using perm by simp
  ultimately have emails_perm: "mset (map fst ord) = mset batch"
    by (simp only:)
  from settle_all_props [of ord res w1] obtain outs res' w' sevs where st:
    "settle_all ord (res, w1) = (outs, res', w')"
    "promise_all outs = Inr ()"
    "successful res' = successful res @ delivered (map (\<lambda>ep. (fst ep, verdict (snd ep))) ord)"
    "failed res' = failed res @ refused (map (\<lambda>ep. (fst ep, verdict (snd ep))) ord)"
    "service w' = service w1"
    "trace w' = trace w1 @ sevs"
    "list_all is_settle sevs"
    "pushed sevs = map fst ord"
    by blast
  have "issue_all prov msg batch w0 = (pend, w1)"
    by (simp add: pend_def w1_def)
  then have "run_window prov latency msg i batch (res, w) = (Inr (), res', w')"
    using st(1,2) by (simp add: run_window_def w0_def ord_def)
  moreover have "mset (successful res') =
      mset (successful res) + mset (delivered (outcomes prov msg batch w))"
    using delivered_mset [OF outs_perm] by (simp add: st(3))
  moreover have "mset (failed res') =
      mset (failed res) + mset (refused (outcomes prov msg batch w))"
    using refused_mset [OF outs_perm] by (simp add: st(4))
  moreover have "service w' = service (snd (issue_all prov msg batch w))"
    by (simp add: st(5) serv)
  moreover have "trace w' = trace w @ (Slice batch # requests msg batch @ sevs)"
    by (simp add: st(6) tr1)
  moreover have "window_segment msg batch (Slice batch # requests msg batch @ sevs)"
    using emails_perm by (simp add: window_segment_def st(7) st(8))
  ultimately show ?thesis by blast
qed

section \<open>ses\_tester: the windows of a list\<close>

lemma windows_Nil [simp]: "windows W [] = []"
  by (cases "W = 0") (simp_all add: windows_def)

lemma windows_count:
  assumes "0 < W" and "xs \<noteq> []"
  shows "(length xs + W - 1) div W = Suc ((length (drop W xs) + W - 1) div W)"
proof (cases "length xs \<le> W")
  case True
  from assms have pos: "0 < length xs" by simp
  then have "length xs + W - 1 = W + (length xs - 1)" by arith
  moreover from pos True have "length xs - 1 < W" by arith
  ultimately have "(length xs + W - 1) div W = 1"
    by (simp only: div_add_self1) simp
  moreover from True assms(1) have "(length (drop W xs) + W - 1) div W = 0"
    by simp
  ultimately show ?thesis by simp
next
  case False
  then have a: "length (drop W xs) + W - 1 = length xs - 1"
    by simp
  from False have b: "length xs + W - 1 = (length xs - 1) + W"
    by arith
  show ?thesis
    unfolding a b using assms(1) by (simp add: div_add_self2)
qed

lemma windows_step:
  assumes "0 < W" and "xs \<noteq> []"
  shows "windows W xs = take W xs # windows W (drop W xs)"
proof -
  let ?m = "(length (drop W xs) + W - 1) div W"
  have "windows W xs = map (\<lambda>k. take W (drop (k * W) xs)) [0..<Suc ?m]"
    unfolding windows_def using windows_count [OF assms] by simp
  also have "[0..<Suc ?m] = 0 # map Suc [0..<?m]"
    by (simp add: upt_conv_Cons map_Suc_upt del: upt_Suc)
  also have "map (\<lambda>k. take W (drop (k * W) xs)) (0 # map Suc [0..<?m]) =
      take W xs # map (\<lambda>k. take W (drop (k * W) (drop W xs))) [0..<?m]"
    by (simp add: comp_def add.commute)
  finally show ?thesis
    by (simp add: windows_def)
qed

lemma windows_eq_Nil: "0 < W \<Longrightarrow> windows W xs = [] \<longleftrightarrow> xs = []"
  using windows_step [of W xs] by (cases "xs = []") simp_all

section \<open>ses\_tester: the loop\<close>

lemma batch_loop_props:
  fixes w :: "'p world"
  assumes "0 < W"
  shows "\<exists>res' w' segs.
     batch_loop prov latency W D msg xs i (res, w) = Some (Inr res', w')
     \<and> mset (successful res') =
         mset (successful res) + mset (delivered (outcomes prov msg (drop i xs) w))
     \<and> mset (failed res') =
         mset (failed res) + mset (refused (outcomes prov msg (drop i xs) w))
     \<and> trace w' = trace w @ join_events (Sleep D) segs
     \<and> list_all2 (window_segment msg) (windows W (drop i xs)) segs"
proof (induction "length xs - i" arbitrary: i res w rule: less_induct)
  case less
  show ?case
  proof (cases "i < length xs")
    case False
    then have "batch_loop prov latency W D msg xs i (res, w) = Some (Inr res, w)"
      by (subst batch_loop.simps) simp
    moreover from False have "drop i xs = []" by simp
    ultimately show ?thesis
      by (simp add: outcomes_def)
  next
    case True
    define batch where "batch = slice i (i + W) xs"
    have batch: "batch = take W (drop i xs)"
      by (simp add: batch_def slice_def)
    have rest: "drop W (drop i xs) = drop (i + W) xs"
      by (simp add: add.commute)
    have "drop i xs = take W (drop i xs) @ drop W (drop i xs)"
      by (simp only: append_take_drop_id)
    then have split: "drop i xs = batch @ drop (i + W) xs"
      by (simp only: batch rest)
    from run_window_props [of prov latency msg i batch res w]
    obtain res1 w1 seg where rw:
      "run_window prov latency msg i batch (res, w) = (Inr (), res1, w1)"
      "mset (successful res1) =
         mset (successful res) + mset (delivered (outcomes prov msg batch w))"
      "mset (failed res1) = mset (failed res) + mset (refused (outcomes prov msg batch w))"
      "service w1 = service (snd (issue_all prov msg batch w))"
      "trace w1 = trace w @ seg"
      "window_segment msg batch seg"
      by blast
    define w2 where "w2 = (if i + W < length xs then emit (Sleep D) w1 else w1)"
    have step: "batch_loop prov latency W D msg xs i (res, w) =
        batch_loop prov latency W D msg xs (i + W) (res1, w2)"
      by (subst batch_loop.simps) (simp add: True Let_def rw(1) batch_def [symmetric] w2_def)
    have "length xs - (i + W) < length xs - i"
      using True assms by simp
    from less [OF this, of res1 w2] obtain res' w' segs where ih:
      "batch_loop prov latency W D msg xs (i + W) (res1, w2) = Some (Inr res', w')"
      "mset (successful res') =
         mset (successful res1) + mset (delivered (outcomes prov msg (drop (i + W) xs) w2))"
      "mset (failed res') =
         mset (failed res1) + mset (refused (outcomes prov msg (drop (i + W) xs) w2))"
      "trace w' = trace w2 @ join_events (Sleep D) segs"
      "list_all2 (window_segment msg) (windows W (drop (i + W) xs)) segs"
      by blast
    have "service w2 = service (snd (issue_all prov msg batch w))"
      by (simp add: w2_def rw(4))
    from outcomes_service [OF this]
    have outs: "outcomes prov msg (drop i xs) w =
        outcomes prov msg batch w @ outcomes prov msg (drop (i + W) xs) w2"
      by (subst split) (simp add: outcomes_append)
    have nonempty: "drop i xs \<noteq> []"
      using True by simp
    have wins: "windows W (drop i xs) = batch # windows W (drop (i + W) xs)"
      using windows_step [OF assms nonempty] by (simp only: batch rest)
    have more: "segs \<noteq> [] \<longleftrightarrow> i + W < length xs"
    proof -
      have "segs = [] \<longleftrightarrow> windows W (drop (i + W) xs) = []"
        using ih(5) by (auto simp: list_all2_Nil list_all2_Nil2)
      then show ?thesis
        by (auto simp: windows_eq_Nil [OF assms])
    qed
    have tr: "trace w' = trace w @ join_events (Sleep D) (seg # segs)"
    proof (cases segs)
      case Nil
      with more have "w2 = w1" by (simp add: w2_def)
      with Nil show ?thesis by (simp add: ih(4) rw(5))
    next
      case (Cons s ss)
      with more have "w2 = emit (Sleep D) w1" by (simp add: w2_def)
      with Cons show ?thesis by (simp add: ih(4) rw(5))
    qed
    have "batch_loop prov latency W D msg xs i (res, w) = Some (Inr res', w')"
      by (simp add: step ih(1))
    moreover have "mset (successful res') =
        mset (successful res) + mset (delivered (outcomes prov msg (drop i xs) w))"
      by (simp add: ih(2) rw(2) outs)
    moreover have "mset (failed res') =
        mset (failed res) + mset (refused (outcomes prov msg (drop i xs) w))"
      by (simp add: ih(3) rw(3) outs)
    moreover have "list_all2 (window_segment msg) (windows W (drop i xs)) (seg # segs)"
      by (simp add: wins rw(6) ih(5))
    ultimately show ?thesis
      using tr by blast
  qed
qed

lemma windows_length: "length (windows W xs) = (length xs + W - 1) div W"
  by (simp add: windows_def)

lemma windows_nth:
  "k < length (windows W xs) \<Longrightarrow> windows W xs ! k = take W (drop (k * W) xs)"
  by (simp add: windows_def)

lemma windows_concat: "0 < W \<Longrightarrow> concat (windows W xs) = xs"
proof (induction "length xs" arbitrary: xs rule: less_induct)
  case less
  show ?case
  proof (cases "xs = []")
    case True
    then show ?thesis by simp
  next
    case False
    with less.prems have "length (drop W xs) < length xs" by simp
    from less.hyps [OF this less.prems] show ?thesis
      by (simp add: windows_step [OF less.prems False])
  qed
qed

lemma ceil_div:
  assumes "0 < W"
  shows "(n + W - 1) div W = (if n mod W = 0 then n div W else Suc (n div W))"
proof (cases "n mod W = 0")
  case True
  then have "n + W - 1 = n div W * W + (W - 1)"
    using assms by (metis Nat.add_diff_assoc Suc_leI One_nat_def add.right_neutral div_mult_mod_eq)
  then have "(n + W - 1) div W = n div W + (W - 1) div W"
    using assms by (simp only: div_mult_self3) 
  with True assms show ?thesis by simp
next
  case False
  have "n = n div W * W + n mod W"
    by simp
  moreover from False have "0 < n mod W"
    by simp
  ultimately have "n + W - 1 = (n div W * W + W) + (n mod W - 1)"
    by arith
  then have "n + W - 1 = Suc (n div W) * W + (n mod W - 1)"
    by simp
  then have "(n + W - 1) div W = Suc (n div W) + (n mod W - 1) div W"
    using assms by (simp only: div_mult_self3)
  moreover have "n mod W - 1 < W"
    using assms by (meson less_imp_diff_less mod_less_divisor)
  ultimately show ?thesis
    using False by simp
qed

lemma windows_full:
  assumes "0 < W" and "Suc k < length (windows W xs)"
  shows "length (windows W xs ! k) = W"
proof -
  from assms(2) have "Suc (Suc k) \<le> (length xs + W - 1) div W"
    by (simp add: windows_length)
  then have "Suc (Suc k) * W \<le> (length xs + W - 1) div W * W"
    by (rule mult_le_mono1)
  also have "\<dots> \<le> length xs + W - 1"
    by simp
  finally have "k * W + W + W \<le> length xs + W - 1"
    by (simp add: algebra_simps)
  then have "k * W + W \<le> length xs"
    by arith
  moreover from assms(2) have "k < length (windows W xs)"
    by simp
  ultimately show ?thesis
    by (simp add: windows_nth)
qed

lemma windows_last:
  assumes "0 < W" and "xs \<noteq> []"
  shows "length (last (windows W xs)) = (if length xs mod W = 0 then W else length xs mod W)"
proof -
  let ?n = "length xs"
  let ?c = "length (windows W xs)"
  have c: "?c = (if ?n mod W = 0 then ?n div W else Suc (?n div W))"
    by (simp only: windows_length ceil_div [OF assms(1)])
  have ne: "windows W xs \<noteq> []"
    using assms by (simp add: windows_eq_Nil)
  then have "last (windows W xs) = windows W xs ! (?c - 1)"
    by (rule last_conv_nth)
  also have "\<dots> = take W (drop ((?c - 1) * W) xs)"
    using ne by (simp add: windows_nth)
  finally have len: "length (last (windows W xs)) = min W (?n - (?c - 1) * W)"
    by simp
  show ?thesis
  proof (cases "?n mod W = 0")
    case True
    then have "?n = ?n div W * W"
      by (metis add.right_neutral div_mult_mod_eq)
    moreover from this assms have "0 < ?n div W"
      by (metis gr0I length_0_conv mult_zero_left)
    ultimately have "?n - (?n div W - 1) * W = W"
      by (metis diff_mult_distrib nat_mult_1 add_diff_cancel_left' le_add_diff_inverse
          Suc_leI One_nat_def diff_diff_cancel mult_le_mono1 mult.commute)
    with True c len show ?thesis by simp
  next
    case False
    have "?n - ?n div W * W = ?n mod W"
      by (metis add_diff_cancel_left' div_mult_mod_eq)
    moreover have "?n mod W < W"
      using assms(1) by simp
    ultimately show ?thesis
      using False c len by simp
  qed
qed

section \<open>ses\_tester: reading a trace\<close>

lemma slices_append [simp]: "slices (xs @ ys) = slices xs @ slices ys"
  by (simp add: slices_def)

lemma calls_append [simp]: "calls (xs @ ys) = calls xs @ calls ys"
  by (simp add: calls_def)

lemma sleeps_append [simp]: "sleeps (xs @ ys) = sleeps xs @ sleeps ys"
  by (simp add: sleeps_def)

lemma readers_Nil [simp]: "slices [] = []" "calls [] = []" "sleeps [] = []"
  by (simp_all add: slices_def calls_def sleeps_def)

lemma readers_Cons [simp]:
  "slices (Slice b # evs) = b # slices evs"
  "slices (Call p # evs) = slices evs"
  "slices (Sleep d # evs) = slices evs"
  "calls (Slice b # evs) = calls evs"
  "calls (Call p # evs) = p # calls evs"
  "calls (Sleep d # evs) = calls evs"
  "sleeps (Slice b # evs) = sleeps evs"
  "sleeps (Call p # evs) = sleeps evs"
  "sleeps (Sleep d # evs) = d # sleeps evs"
  by (simp_all add: slices_def calls_def sleeps_def)

lemma readers_settle:
  "list_all is_settle evs \<Longrightarrow> slices evs = [] \<and> calls evs = [] \<and> sleeps evs = []"
  by (induction evs)
    (auto simp: is_settle_def slices_def calls_def sleeps_def split: event.splits)

lemma readers_requests:
  "slices (requests msg batch) = []"
  "calls (requests msg batch) = map (\<lambda>a. make_params a msg) (filter isValidEmail batch)"
  "sleeps (requests msg batch) = []"
  by (induction batch) (simp_all add: requests_def)

lemma window_segment_readers:
  assumes "window_segment msg batch seg"
  shows "slices seg = [batch]"
    and "calls seg = map (\<lambda>a. make_params a msg) (filter isValidEmail batch)"
    and "sleeps seg = []"
proof -
  let ?n = "Suc (length (requests msg batch))"
  from assms have hd: "take ?n seg = Slice batch # requests msg batch"
    and tl: "list_all is_settle (drop ?n seg)"
    by (simp_all add: window_segment_def)
  have seg: "seg = (Slice batch # requests msg batch) @ drop ?n seg"
    using append_take_drop_id [of ?n seg] by (simp only: hd)
  show "slices seg = [batch]"
    by (subst seg) (simp add: readers_requests readers_settle [OF tl])
  show "calls seg = map (\<lambda>a. make_params a msg) (filter isValidEmail batch)"
    by (subst seg) (simp add: readers_requests readers_settle [OF tl])
  show "sleeps seg = []"
    by (subst seg) (simp add: readers_requests readers_settle [OF tl])
qed

lemma join_events_Cons:
  "segs \<noteq> [] \<Longrightarrow> join_events sep (s # segs) = s @ sep # join_events sep segs"
  by (cases segs) simp_all

lemma join_events_readers:
  assumes "list_all2 (window_segment msg) ws segs"
  shows "slices (join_events (Sleep D) segs) = ws"
    and "calls (join_events (Sleep D) segs) =
           map (\<lambda>a. make_params a msg) (filter isValidEmail (concat ws))"
    and "sleeps (join_events (Sleep D) segs) = replicate (length ws - 1) D"
  using assms
proof (induction ws segs rule: list_all2_induct)
  case Nil
  {
    case 1 show ?case by simp
  next
    case 2 show ?case by simp
  next
    case 3 show ?case by simp
  }
next
  case (Cons b ws seg segs)
  note r = window_segment_readers [OF Cons.hyps(1)]
  from Cons.hyps(2) have len: "length ws = length segs"
    by (rule list_all2_lengthD)
  {
    case 1
    show ?case
    proof (cases "segs = []")
      case True
      with len show ?thesis by (simp add: r)
    next
      case False
      then show ?thesis by (simp add: join_events_Cons r Cons.IH(1))
    qed
  next
    case 2
    show ?case
    proof (cases "segs = []")
      case True
      with len show ?thesis by (simp add: r)
    next
      case False
      then show ?thesis by (simp add: join_events_Cons r Cons.IH(2))
    qed
  next
    case 3
    show ?case
    proof (cases "segs = []")
      case True
      with len show ?thesis by (simp add: r)
    next
      case False
      with len have "length ws - 1 = length segs - 1" and "0 < length segs" by simp_all
      with False len show ?thesis
        by (simp add: join_events_Cons r Cons.IH(3) flip: replicate_Suc)
    qed
  }
qed

section \<open>ses\_tester: a whole run of the dispatcher\<close>

lemma sendBatchEmailsWith_props:
  fixes w :: "'p world"
  assumes "0 < W"
  shows "\<exists>res w' segs.
     sendBatchEmailsWith W D prov latency xs msg w = Some (Inr res, w')
     \<and> mset (successful res) = mset (delivered (outcomes prov msg xs w))
     \<and> mset (failed res) = mset (refused (outcomes prov msg xs w))
     \<and> trace w' = trace w @ join_events (Sleep D) segs
     \<and> list_all2 (window_segment msg) (windows W xs) segs"
  using batch_loop_props [OF assms, of prov latency D msg xs 0 "\<lparr>successful = [], failed = []\<rparr>" w]
  by (simp add: sendBatchEmailsWith_def)

lemma sendBatchEmails_props:
  fixes w :: "'p world"
  shows "\<exists>res w' evs.
     sendBatchEmails prov latency xs msg w = Some (Inr res, w')
     \<and> mset (successful res) = mset (delivered (outcomes prov msg xs w))
     \<and> mset (failed res) = mset (refused (outcomes prov msg xs w))
     \<and> trace w' = trace w @ evs
     \<and> calls evs = map (\<lambda>a. make_params a msg) (filter isValidEmail xs)"
proof -
  have "0 < BATCH_SIZE"
    by (simp add: BATCH_SIZE_def)
  from sendBatchEmailsWith_props [OF this, of DELAY_BETWEEN_BATCHES prov latency xs msg w]
  obtain res w' segs where run:
    "sendBatchEmails prov latency xs msg w = Some (Inr res, w')"
    "mset (successful res) = mset (delivered (outcomes prov msg xs w))"
    "mset (failed res) = mset (refused (outcomes prov msg xs w))"
    "trace w' = trace w @ join_events (Sleep DELAY_BETWEEN_BATCHES) segs"
    "list_all2 (window_segment msg) (windows BATCH_SIZE xs) segs"
    unfolding sendBatchEmails_def by blast
  have "calls (join_events (Sleep DELAY_BETWEEN_BATCHES) segs) =
      map (\<lambda>a. make_params a msg) (filter isValidEmail xs)"
    using join_events_readers(2) [OF run(5)] \<open>0 < BATCH_SIZE\<close>
    by (simp add: windows_concat)
  with run(1-4) show ?thesis by blast
qed

lemma refused_member: "(a, Inl err) \<in> set os \<Longrightarrow> (a, err) \<in> set (refused os)"
  by (force simp: refused_def)

lemma delivered_member: "(a, Inr mid) \<in> set os \<Longrightarrow> (a, mid) \<in> set (delivered os)"
  by (force simp: delivered_def)

lemma delivered_refused_length: "length (delivered os) + length (refused os) = length os"
  by (simp add: delivered_def refused_def sum_length_filter_compl add.commute)

lemma delivered_refused_emails:
  "mset (map fst (delivered os)) + mset (map fst (refused os)) = mset (map fst os)"
proof -
  have "map fst (delivered os) = map fst (filter (\<lambda>ea. \<not> isl (snd ea)) os)"
    by (simp add: delivered_def comp_def)
  moreover have "map fst (refused os) = map fst (filter (\<lambda>ea. isl (snd ea)) os)"
    by (simp add: refused_def comp_def)
  ultimately show ?thesis
    by (simp add: add.commute flip: image_mset_union)
qed

lemma outcomes_Nil [simp]: "outcomes prov msg [] w = []"
  by (simp add: outcomes_def)

lemma outcomes_Cons_invalid:
  "\<not> isValidEmail a \<Longrightarrow>
     outcomes prov msg (a # xs) w =
       (a, Inl (js ''Invalid email address: '' @ a)) # outcomes prov msg xs w"
  by (simp add: outcomes_def sendEmail_call_invalid verdict_def case_prod_beta)

lemma outcomes_Cons_valid:
  "isValidEmail a \<Longrightarrow>
     outcomes prov msg (a # xs) w =
       (a, fst (prov (service w) (make_params a msg)))
       # outcomes prov msg xs
           (emit (Call (make_params a msg))
              (w\<lparr>service := snd (prov (service w) (make_params a msg))\<rparr>))"
  by (simp add: outcomes_def sendEmail_call_valid verdict_def case_prod_beta)

lemma outcomes_emit: "outcomes prov msg xs (emit e w) = outcomes prov msg xs w"
  by (rule outcomes_service) simp

lemma outcomes_invalid:
  "a \<in> set xs \<Longrightarrow> \<not> isValidEmail a \<Longrightarrow>
     (a, Inl (js ''Invalid email address: '' @ a)) \<in> set (outcomes prov msg xs w)"
proof (induction xs arbitrary: w)
  case Nil
  then show ?case by simp
next
  case (Cons b xs)
  then show ?case
    by (cases "isValidEmail b") (auto simp: outcomes_Cons_invalid outcomes_Cons_valid)
qed

text \<open>
  The recipients that pass validation get from the provider what they would get if the
  others were not in the list, and the others are refused with the message of
  \<^verbatim>\<open>sendEmail\<close>.
\<close>

lemma outcomes_valid_only:
  "filter (\<lambda>ea. isValidEmail (fst ea)) (outcomes prov msg xs w) =
     outcomes prov msg (filter isValidEmail xs) w"
proof (induction xs arbitrary: w)
  case Nil
  show ?case by simp
next
  case (Cons b xs)
  show ?case
    by (cases "isValidEmail b") (simp_all add: outcomes_Cons_invalid outcomes_Cons_valid Cons.IH)
qed

lemma outcomes_invalid_only:
  "filter (\<lambda>ea. \<not> isValidEmail (fst ea)) (outcomes prov msg xs w) =
     map (\<lambda>b. (b, Inl (js ''Invalid email address: '' @ b))) (filter (\<lambda>b. \<not> isValidEmail b) xs)"
proof (induction xs arbitrary: w)
  case Nil
  show ?case by simp
next
  case (Cons b xs)
  show ?case
    by (cases "isValidEmail b") (simp_all add: outcomes_Cons_invalid outcomes_Cons_valid Cons.IH)
qed

lemma refused_split:
  "mset (refused os) = mset (refused (filter P os)) + mset (refused (filter (\<lambda>x. \<not> P x) os))"
proof (induction os)
  case Nil
  show ?case by simp
next
  case (Cons ea os)
  obtain a v where "ea = (a, v)" by (cases ea)
  with Cons show ?case
    by (cases v) (simp_all add: refused_Cons)
qed

lemma delivered_split:
  "mset (delivered os) = mset (delivered (filter P os)) + mset (delivered (filter (\<lambda>x. \<not> P x) os))"
proof (induction os)
  case Nil
  show ?case by simp
next
  case (Cons ea os)
  obtain a v where "ea = (a, v)" by (cases ea)
  with Cons show ?case
    by (cases v) (simp_all add: delivered_Cons)
qed

lemma delivered_invalid [simp]:
  "delivered (map (\<lambda>b. (b, Inl (f b))) bs) = []"
  by (simp add: delivered_def)

lemma refused_invalid [simp]:
  "refused (map (\<lambda>b. (b, Inl (f b))) bs) = map (\<lambda>b. (b, f b)) bs"
  by (simp add: refused_def comp_def)

lemma outcomes_delivered_valid:
  "mset (delivered (outcomes prov msg xs w)) =
     mset (delivered (outcomes prov msg (filter isValidEmail xs) w))"
  using delivered_split [of "outcomes prov msg xs w" "\<lambda>ea. isValidEmail (fst ea)"]
  by (simp add: outcomes_valid_only outcomes_invalid_only)

lemma outcomes_refused_valid:
  "mset (refused (outcomes prov msg xs w)) =
     mset (refused (outcomes prov msg (filter isValidEmail xs) w))
     + mset (map (\<lambda>b. (b, js ''Invalid email address: '' @ b)) (filter (\<lambda>b. \<not> isValidEmail b) xs))"
  using refused_split [of "outcomes prov msg xs w" "\<lambda>ea. isValidEmail (fst ea)"]
  by (simp add: outcomes_valid_only outcomes_invalid_only)

section \<open>ses\_tester: the claims about the dispatcher\<close>

lemma sample_valid: "isValidEmail (js ''a@b.c'')" "isValidEmail (js ''d@e.f'')"
  by (simp_all add: isValidEmail_def emailRegex_def js_def plus1_def not_space_at_def
      js_space_def at_sign_def full_stop_def)

lemma sample_invalid: "\<not> isValidEmail (js ''nobody'')"
  by (simp add: isValidEmail_def emailRegex_def js_def plus1_def not_space_at_def
      js_space_def at_sign_def full_stop_def)

text \<open>
  Claim C2. With a window size \<open>W > 0\<close> the run returns, and the slices it took, in
  order, are \<open>\<lceil>N/W\<rceil>\<close> many; slice \<open>k\<close> is the next \<open>W\<close> recipients from position
  \<open>k * W\<close>; every slice but the last has \<open>W\<close> recipients, the last has \<open>N mod W\<close>, or
  \<open>W\<close> when that is zero; together they are the input list.
\<close>

theorem dispatch_windows:
  fixes w :: "'p world"
  assumes "0 < W"
  shows "\<exists>res w' evs.
     sendBatchEmailsWith W D prov latency xs msg w = Some (Inr res, w')
     \<and> trace w' = trace w @ evs
     \<and> length (slices evs) = (length xs + W - 1) div W
     \<and> (\<forall>k < length (slices evs). slices evs ! k = take W (drop (k * W) xs))
     \<and> (\<forall>k. Suc k < length (slices evs) \<longrightarrow> length (slices evs ! k) = W)
     \<and> (xs \<noteq> [] \<longrightarrow>
          length (last (slices evs)) = (if length xs mod W = 0 then W else length xs mod W))
     \<and> concat (slices evs) = xs"
proof -
  from sendBatchEmailsWith_props [OF assms, of D prov latency xs msg w]
  obtain res w' segs where run:
    "sendBatchEmailsWith W D prov latency xs msg w = Some (Inr res, w')"
    "trace w' = trace w @ join_events (Sleep D) segs"
    "list_all2 (window_segment msg) (windows W xs) segs"
    by blast
  have sl: "slices (join_events (Sleep D) segs) = windows W xs"
    by (rule join_events_readers(1) [OF run(3)])
  have "length (windows W xs) = (length xs + W - 1) div W"
    by (rule windows_length)
  moreover have "\<forall>k < length (windows W xs). windows W xs ! k = take W (drop (k * W) xs)"
    by (simp add: windows_nth)
  moreover have "\<forall>k. Suc k < length (windows W xs) \<longrightarrow> length (windows W xs ! k) = W"
    by (simp add: windows_full [OF assms])
  moreover have "xs \<noteq> [] \<longrightarrow>
      length (last (windows W xs)) = (if length xs mod W = 0 then W else length xs mod W)"
    using windows_last [OF assms] by blast
  moreover have "concat (windows W xs) = xs"
    by (rule windows_concat [OF assms])
  ultimately show ?thesis
    using run(1,2) unfolding sl [symmetric] by blast
qed

theorem dispatch_windows_witness:
  "\<exists>res w' evs.
     sendBatchEmails flaky (\<lambda>k. 0) (replicate 120 (js ''a@b.c'')) test_message fresh
       = Some (Inr res, w')
     \<and> trace w' = trace fresh @ evs
     \<and> map length (slices evs) = [50, 50, 20]
     \<and> concat (slices evs) = replicate 120 (js ''a@b.c'')"
proof -
  let ?xs = "replicate 120 (js ''a@b.c'')"
  have pos: "0 < BATCH_SIZE"
    by (simp add: BATCH_SIZE_def)
  from dispatch_windows [OF pos, of DELAY_BETWEEN_BATCHES flaky "\<lambda>k. 0" ?xs test_message fresh]
  obtain res w' evs where run:
    "sendBatchEmailsWith BATCH_SIZE DELAY_BETWEEN_BATCHES flaky (\<lambda>k. 0) ?xs test_message fresh
       = Some (Inr res, w')"
    "trace w' = trace fresh @ evs"
    "length (slices evs) = (length ?xs + BATCH_SIZE - 1) div BATCH_SIZE"
    "\<forall>k. Suc k < length (slices evs) \<longrightarrow> length (slices evs ! k) = BATCH_SIZE"
    "?xs \<noteq> [] \<longrightarrow> length (last (slices evs)) =
       (if length ?xs mod BATCH_SIZE = 0 then BATCH_SIZE else length ?xs mod BATCH_SIZE)"
    "concat (slices evs) = ?xs"
    by blast
  have len: "length (slices evs) = 3"
    using run(3) by (simp add: BATCH_SIZE_def)
  then obtain a b c where abc: "slices evs = [a, b, c]"
    by (auto simp: length_Suc_conv numeral_3_eq_3)
  from run(4) [rule_format, of 0] run(4) [rule_format, of 1] len
  have "length a = 50" "length b = 50"
    by (simp_all add: abc BATCH_SIZE_def)
  moreover from run(5) have "length c = 20"
    by (simp add: abc BATCH_SIZE_def)
  ultimately have "map length (slices evs) = [50, 50, 20]"
    by (simp add: abc)
  with run(1,2,6) show ?thesis
    unfolding sendBatchEmails_def
    by (intro exI [of _ res] exI [of _ w'] exI [of _ evs]) simp
qed

text \<open>
  Claim C5. With a window size \<open>W > 0\<close> the trace of the run is the events of the first
  window, a pause of \<open>D\<close>, the events of the second window, a pause of \<open>D\<close>, and so on up
  to the events of the last window, after which nothing follows. The events of a window
  are its slice, its requests and the settling of every one of its sends, and no pause.
  So there are \<open>\<lceil>N/W\<rceil> - 1\<close> pauses, each of \<open>D\<close>, which is \<open>N/W - 1\<close> when \<open>W\<close> divides
  \<open>N\<close>. A pause is the timer the program asks for.
\<close>

theorem dispatch_pauses:
  fixes w :: "'p world"
  assumes "0 < W"
  shows "\<exists>res w' segs.
     sendBatchEmailsWith W D prov latency xs msg w = Some (Inr res, w')
     \<and> trace w' = trace w @ join_events (Sleep D) segs
     \<and> list_all2 (window_segment msg) (windows W xs) segs
     \<and> (\<forall>seg \<in> set segs. sleeps seg = [])
     \<and> sleeps (join_events (Sleep D) segs) = replicate ((length xs + W - 1) div W - 1) D
     \<and> (xs \<noteq> [] \<and> length xs mod W = 0 \<longrightarrow>
          length (sleeps (join_events (Sleep D) segs)) = length xs div W - 1)"
proof -
  from sendBatchEmailsWith_props [OF assms, of D prov latency xs msg w]
  obtain res w' segs where run:
    "sendBatchEmailsWith W D prov latency xs msg w = Some (Inr res, w')"
    "trace w' = trace w @ join_events (Sleep D) segs"
    "list_all2 (window_segment msg) (windows W xs) segs"
    by blast
  have quiet: "\<forall>seg \<in> set segs. sleeps seg = []"
  proof
    fix seg
    assume "seg \<in> set segs"
    with run(3) obtain b where "window_segment msg b seg"
      by (auto simp: list_all2_conv_all_nth in_set_conv_nth)
    then show "sleeps seg = []"
      by (rule window_segment_readers(3))
  qed
  have count: "sleeps (join_events (Sleep D) segs) = replicate ((length xs + W - 1) div W - 1) D"
    using join_events_readers(3) [OF run(3)] by (simp add: windows_length)
  have "xs \<noteq> [] \<and> length xs mod W = 0 \<longrightarrow>
      length (sleeps (join_events (Sleep D) segs)) = length xs div W - 1"
    unfolding count length_replicate using ceil_div [OF assms, of "length xs"] by simp
  with run quiet count show ?thesis
    by blast
qed

theorem dispatch_pauses_witness:
  "\<exists>res w' segs.
     sendBatchEmails flaky (\<lambda>k. 0) (replicate 120 (js ''a@b.c'')) test_message fresh
       = Some (Inr res, w')
     \<and> trace w' = trace fresh @ join_events (Sleep 1000) segs
     \<and> length segs = 3
     \<and> (\<forall>seg \<in> set segs. sleeps seg = [])
     \<and> sleeps (join_events (Sleep 1000) segs) = [1000, 1000]"
proof -
  let ?xs = "replicate 120 (js ''a@b.c'')"
  have pos: "0 < BATCH_SIZE"
    by (simp add: BATCH_SIZE_def)
  from dispatch_pauses [OF pos, of DELAY_BETWEEN_BATCHES flaky "\<lambda>k. 0" ?xs test_message fresh]
  obtain res w' segs where run:
    "sendBatchEmailsWith BATCH_SIZE DELAY_BETWEEN_BATCHES flaky (\<lambda>k. 0) ?xs test_message fresh
       = Some (Inr res, w')"
    "trace w' = trace fresh @ join_events (Sleep DELAY_BETWEEN_BATCHES) segs"
    "list_all2 (window_segment test_message) (windows BATCH_SIZE ?xs) segs"
    "\<forall>seg \<in> set segs. sleeps seg = []"
    "sleeps (join_events (Sleep DELAY_BETWEEN_BATCHES) segs) =
       replicate ((length ?xs + BATCH_SIZE - 1) div BATCH_SIZE - 1) DELAY_BETWEEN_BATCHES"
    by blast
  have "length segs = length (windows BATCH_SIZE ?xs)"
    using run(3) by (simp add: list_all2_lengthD)
  then have len: "length segs = 3"
    by (simp add: windows_def BATCH_SIZE_def)
  have "replicate ((length ?xs + BATCH_SIZE - 1) div BATCH_SIZE - 1) DELAY_BETWEEN_BATCHES =
      [1000, 1000]"
    by (simp add: BATCH_SIZE_def DELAY_BETWEEN_BATCHES_def numeral_2_eq_2)
  with run(5) have "sleeps (join_events (Sleep 1000) segs) = [1000, 1000]"
    by (simp add: DELAY_BETWEEN_BATCHES_def)
  with run(1,2,4) len show ?thesis
    unfolding sendBatchEmails_def DELAY_BETWEEN_BATCHES_def
    by (intro exI [of _ res] exI [of _ w'] exI [of _ segs]) simp
qed

text \<open>
  Claim C3. The run returns its results, it does not throw. Every recipient whose send
  ends in an error has a record in \<open>failed\<close> with that recipient and the message of the
  error, every recipient whose send succeeds has its record in \<open>successful\<close>, a request
  went out for every valid recipient, in input order, whatever happened to the others,
  and there is one record for each recipient.
\<close>

theorem send_failure_is_recorded:
  fixes w :: "'p world"
  shows "\<exists>res w' evs.
     sendBatchEmails prov latency xs msg w = Some (Inr res, w')
     \<and> trace w' = trace w @ evs
     \<and> (\<forall>a err. (a, Inl err) \<in> set (outcomes prov msg xs w) \<longrightarrow> (a, err) \<in> set (failed res))
     \<and> (\<forall>a mid. (a, Inr mid) \<in> set (outcomes prov msg xs w) \<longrightarrow> (a, mid) \<in> set (successful res))
     \<and> calls evs = map (\<lambda>a. make_params a msg) (filter isValidEmail xs)
     \<and> length (successful res) + length (failed res) = length xs"
proof -
  from sendBatchEmails_props [of prov latency xs msg w]
  obtain res w' evs where run:
    "sendBatchEmails prov latency xs msg w = Some (Inr res, w')"
    "mset (successful res) = mset (delivered (outcomes prov msg xs w))"
    "mset (failed res) = mset (refused (outcomes prov msg xs w))"
    "trace w' = trace w @ evs"
    "calls evs = map (\<lambda>a. make_params a msg) (filter isValidEmail xs)"
    by blast
  have f: "set (failed res) = set (refused (outcomes prov msg xs w))"
    using run(3) by (rule mset_eq_setD)
  have s: "set (successful res) = set (delivered (outcomes prov msg xs w))"
    using run(2) by (rule mset_eq_setD)
  have "length (successful res) + length (failed res) =
      length (delivered (outcomes prov msg xs w)) + length (refused (outcomes prov msg xs w))"
    using run(2,3) by (metis size_mset)
  also have "\<dots> = length xs"
    using outcomes_emails [of prov msg xs w]
    by (metis delivered_refused_length length_map)
  finally have "length (successful res) + length (failed res) = length xs" .
  then show ?thesis
    using run(1,4,5) by (auto simp: f s refused_member delivered_member)
qed

theorem send_failure_is_recorded_witness:
  "\<exists>res w'.
     sendBatchEmails flaky (\<lambda>k. 0) two_valid test_message fresh = Some (Inr res, w')
     \<and> (js ''d@e.f'', js ''Throttling'') \<in> set (failed res)
     \<and> (js ''a@b.c'', js ''id-0'') \<in> set (successful res)
     \<and> length (successful res) + length (failed res) = 2"
proof -
  have o: "outcomes flaky test_message two_valid fresh =
      [(js ''a@b.c'', Inr (js ''id-0'')), (js ''d@e.f'', Inl (js ''Throttling''))]"
    by code_simp
  from send_failure_is_recorded [of flaky "\<lambda>k. 0" two_valid test_message fresh]
  show ?thesis
    unfolding o by (auto simp: two_valid_def)
qed

text \<open>
  Claim C4, as amended. For a non-empty list of valid recipients the run returns results
  with as many records as recipients, and the recipients of the successes together with
  those of the failures are the input list up to order, each entry of the input counted
  once. When no address is repeated in the input, no address is in both sequences, so
  every address of the input is in exactly one of them.
\<close>

theorem results_account_for_input:
  fixes w :: "'p world"
  assumes "xs \<noteq> []" and "\<forall>a \<in> set xs. isValidEmail a"
  shows "\<exists>res w'.
     sendBatchEmails prov latency xs msg w = Some (Inr res, w')
     \<and> length (successful res) + length (failed res) = length xs
     \<and> mset (map fst (successful res)) + mset (map fst (failed res)) = mset xs
     \<and> (distinct xs \<longrightarrow> set (map fst (successful res)) \<inter> set (map fst (failed res)) = {})"
proof -
  from sendBatchEmails_props [of prov latency xs msg w]
  obtain res w' where run:
    "sendBatchEmails prov latency xs msg w = Some (Inr res, w')"
    "mset (successful res) = mset (delivered (outcomes prov msg xs w))"
    "mset (failed res) = mset (refused (outcomes prov msg xs w))"
    by blast
  have "mset (map fst (successful res)) = mset (map fst (delivered (outcomes prov msg xs w)))"
    using run(2) by (metis mset_map)
  moreover have "mset (map fst (failed res)) = mset (map fst (refused (outcomes prov msg xs w)))"
    using run(3) by (metis mset_map)
  ultimately have part:
    "mset (map fst (successful res)) + mset (map fst (failed res)) = mset xs"
    using delivered_refused_emails [of "outcomes prov msg xs w"]
    by (simp only: outcomes_emails)
  from part have "size (mset (map fst (successful res)) + mset (map fst (failed res))) = size (mset xs)"
    by (simp only:)
  then have len: "length (successful res) + length (failed res) = length xs"
    by simp
  have "distinct xs \<longrightarrow> set (map fst (successful res)) \<inter> set (map fst (failed res)) = {}"
  proof
    assume "distinct xs"
    then have "distinct (map fst (successful res) @ map fst (failed res))"
      using part by (metis mset_append mset_eq_imp_distinct_iff)
    then show "set (map fst (successful res)) \<inter> set (map fst (failed res)) = {}"
      by (simp only: distinct_append)
  qed
  with run(1) len part show ?thesis
    by blast
qed

theorem results_account_for_input_witness:
  "\<exists>res w'.
     sendBatchEmails flaky (\<lambda>k. 2 - k) two_valid test_message fresh = Some (Inr res, w')
     \<and> length (successful res) + length (failed res) = 2
     \<and> mset (map fst (successful res)) + mset (map fst (failed res))
         = {#js ''a@b.c'', js ''d@e.f''#}
     \<and> set (map fst (successful res)) \<inter> set (map fst (failed res)) = {}"
proof -
  have ne: "two_valid \<noteq> []"
    by (simp add: two_valid_def)
  have ok: "\<forall>a \<in> set two_valid. isValidEmail a"
    by (simp add: two_valid_def sample_valid)
  have d: "distinct two_valid"
    by (simp add: two_valid_def js_def)
  from results_account_for_input [OF ne ok, of flaky "\<lambda>k. 2 - k" test_message fresh] d
  obtain res w' where
    "sendBatchEmails flaky (\<lambda>k. 2 - k) two_valid test_message fresh = Some (Inr res, w')"
    "length (successful res) + length (failed res) = length two_valid"
    "mset (map fst (successful res)) + mset (map fst (failed res)) = mset two_valid"
    "set (map fst (successful res)) \<inter> set (map fst (failed res)) = {}"
    by blast
  then show ?thesis
    by (intro exI [of _ res] exI [of _ w']) (simp add: two_valid_def)
qed

text \<open>
  Claim C4 as the specification words it has every recipient of the input in exactly one
  of the two sequences. An address may be given twice, and \<^verbatim>\<open>main\<close> lets such a list
  through. Here the first request for it is accepted and the second is throttled, so the
  one address is in both sequences, while the counts still add up to two.
\<close>

theorem repeated_address_counterexample:
  "two_same \<noteq> [] \<and> list_all isValidEmail two_same
   \<and> map_option fst (sendBatchEmails flaky id two_same test_message fresh) =
       Some (Inr \<lparr>successful = [(js ''a@b.c'', js ''id-0'')],
                   failed = [(js ''a@b.c'', js ''Throttling'')]\<rparr>)
   \<and> \<not> in_exactly_one two_same
         \<lparr>successful = [(js ''a@b.c'', js ''id-0'')], failed = [(js ''a@b.c'', js ''Throttling'')]\<rparr>"
  by code_simp

text \<open>
  Claim C9. Called on a list that holds an address \<open>a\<close> that \<^verbatim>\<open>isValidEmail\<close> rejects,
  \<^verbatim>\<open>sendBatchEmails\<close> returns its results. \<open>a\<close> is in \<open>failed\<close> with the message
  \<^verbatim>\<open>Invalid email address: \<close> followed by \<open>a\<close>, no request goes out for it, and the
  valid recipients get their requests in input order and their records as they would if
  the list held only them.
\<close>

theorem invalid_recipient_is_recorded:
  fixes w :: "'p world"
  assumes "a \<in> set xs" and "\<not> isValidEmail a"
  shows "\<exists>res w' evs.
     sendBatchEmails prov latency xs msg w = Some (Inr res, w')
     \<and> trace w' = trace w @ evs
     \<and> (a, js ''Invalid email address: '' @ a) \<in> set (failed res)
     \<and> (\<forall>p \<in> set (calls evs). ToAddresses p \<noteq> [a])
     \<and> calls evs = map (\<lambda>b. make_params b msg) (filter isValidEmail xs)
     \<and> mset (successful res) = mset (delivered (outcomes prov msg (filter isValidEmail xs) w))
     \<and> mset (failed res) =
         mset (refused (outcomes prov msg (filter isValidEmail xs) w))
         + mset (map (\<lambda>b. (b, js ''Invalid email address: '' @ b))
                  (filter (\<lambda>b. \<not> isValidEmail b) xs))"
proof -
  from sendBatchEmails_props [of prov latency xs msg w]
  obtain res w' evs where run:
    "sendBatchEmails prov latency xs msg w = Some (Inr res, w')"
    "mset (successful res) = mset (delivered (outcomes prov msg xs w))"
    "mset (failed res) = mset (refused (outcomes prov msg xs w))"
    "trace w' = trace w @ evs"
    "calls evs = map (\<lambda>b. make_params b msg) (filter isValidEmail xs)"
    by blast
  have "(a, js ''Invalid email address: '' @ a) \<in> set (refused (outcomes prov msg xs w))"
    using outcomes_invalid [OF assms] by (rule refused_member)
  then have rec: "(a, js ''Invalid email address: '' @ a) \<in> set (failed res)"
    using mset_eq_setD [OF run(3)] by simp
  have none: "\<forall>p \<in> set (calls evs). ToAddresses p \<noteq> [a]"
    using assms(2) by (auto simp: run(5) make_params_def)
  have s: "mset (successful res) =
      mset (delivered (outcomes prov msg (filter isValidEmail xs) w))"
    unfolding run(2) by (rule outcomes_delivered_valid)
  have f: "mset (failed res) =
      mset (refused (outcomes prov msg (filter isValidEmail xs) w))
      + mset (map (\<lambda>b. (b, js ''Invalid email address: '' @ b))
               (filter (\<lambda>b. \<not> isValidEmail b) xs))"
    unfolding run(3) by (rule outcomes_refused_valid)
  from run(1,4,5) rec none s f show ?thesis
    by blast
qed

theorem invalid_recipient_is_recorded_witness:
  "\<exists>res w' evs.
     sendBatchEmails flaky (\<lambda>k. 0) three test_message fresh = Some (Inr res, w')
     \<and> trace w' = trace fresh @ evs
     \<and> (js ''nobody'', js ''Invalid email address: nobody'') \<in> set (failed res)
     \<and> calls evs = [make_params (js ''a@b.c'') test_message, make_params (js ''d@e.f'') test_message]"
proof -
  have mem: "js ''nobody'' \<in> set three"
    by (simp add: three_def)
  have text_eq: "js ''Invalid email address: '' @ js ''nobody'' = js ''Invalid email address: nobody''"
    by (simp add: js_def)
  have valid: "filter isValidEmail three = [js ''a@b.c'', js ''d@e.f'']"
    by (simp add: three_def sample_valid sample_invalid)
  from invalid_recipient_is_recorded [OF mem sample_invalid, of flaky "\<lambda>k. 0" test_message fresh]
  obtain res w' evs where
    "sendBatchEmails flaky (\<lambda>k. 0) three test_message fresh = Some (Inr res, w')"
    "trace w' = trace fresh @ evs"
    "(js ''nobody'', js ''Invalid email address: '' @ js ''nobody'') \<in> set (failed res)"
    "calls evs = map (\<lambda>b. make_params b test_message) (filter isValidEmail three)"
    by blast
  then show ?thesis
    by (intro exI [of _ res] exI [of _ w'] exI [of _ evs]) (simp add: text_eq valid)
qed

section \<open>ses\_tester: the claims about main\<close>


lemma main_rejects:
  fixes w :: "'p world"
  assumes "\<exists>a \<in> set (drop 2 argv). \<not> isValidEmail a"
  shows "main prov latency argv w =
     Some \<lparr>status = 1,
           final = emit (ConsoleError [js ''Invalid email addresses found:'',
             join (js '', '') (filter (\<lambda>a. \<not> isValidEmail a) (drop 2 argv))]) w\<rparr>"
proof -
  from assms have "filter (\<lambda>email. \<not> isValidEmail email) (drop 2 argv) \<noteq> []"
    by (simp add: filter_empty_conv)
  moreover from assms have "drop 2 argv \<noteq> []"
    by auto
  ultimately show ?thesis
    by (simp add: main_def main_with_def Let_def)
qed

lemma main_usage:
  fixes w :: "'p world"
  assumes "drop 2 argv = []"
  shows "main prov latency argv w =
     Some \<lparr>status = 1,
           final = emit (ConsoleError
             [js ''Please provide at least one email address as a command line argument'']) w\<rparr>"
  using assms by (simp add: main_def main_with_def Let_def)

text \<open>
  Claim C1. When a recipient on the command line is malformed, the run ends with status
  1 and its only effect is the error message that lists the malformed addresses: the
  provider is not called, no slice is taken and nothing is pushed onto a result array.
\<close>

theorem malformed_address_stops_run:
  fixes w :: "'p world"
  assumes "\<exists>a \<in> set (drop 2 argv). \<not> isValidEmail a"
  shows "\<exists>r. main prov latency argv w = Some r
     \<and> status r = 1
     \<and> service (final r) = service w
     \<and> trace (final r) = trace w @ [ConsoleError [js ''Invalid email addresses found:'',
         join (js '', '') (filter (\<lambda>a. \<not> isValidEmail a) (drop 2 argv))]]
     \<and> calls (trace (final r)) = calls (trace w)
     \<and> pushed (trace (final r)) = pushed (trace w)
     \<and> slices (trace (final r)) = slices (trace w)"
  by (simp add: main_rejects [OF assms] calls_def pushed_def slices_def)

theorem malformed_address_stops_run_witness:
  "\<exists>r. main flaky (\<lambda>k. 0) (js ''node'' # js ''index.js'' # three) fresh = Some r
     \<and> status r = 1
     \<and> service (final r) = 0
     \<and> trace (final r) = [ConsoleError [js ''Invalid email addresses found:'', js ''nobody'']]
     \<and> calls (trace (final r)) = []"
proof -
  have bad: "\<exists>a \<in> set (drop 2 (js ''node'' # js ''index.js'' # three)). \<not> isValidEmail a"
    using sample_invalid by (simp add: three_def)
  have f: "filter (\<lambda>a. \<not> isValidEmail a) (drop 2 (js ''node'' # js ''index.js'' # three)) =
      [js ''nobody'']"
    by (simp add: three_def sample_valid sample_invalid)
  from malformed_address_stops_run [OF bad, of flaky "\<lambda>k. 0" fresh]
  obtain r where
    "main flaky (\<lambda>k. 0) (js ''node'' # js ''index.js'' # three) fresh = Some r"
    "status r = 1"
    "service (final r) = service fresh"
    "trace (final r) = trace fresh @ [ConsoleError [js ''Invalid email addresses found:'',
       join (js '', '') (filter (\<lambda>a. \<not> isValidEmail a)
         (drop 2 (js ''node'' # js ''index.js'' # three)))]]"
    "calls (trace (final r)) = calls (trace fresh)"
    by blast
  then show ?thesis
    unfolding f by (intro exI [of _ r]) (simp add: fresh_def)
qed





text \<open>
  Claim C8. With no recipient on the command line the run ends at once with status 1;
  its only effect is the usage message on the error stream, so the provider is not
  called.
\<close>

theorem no_recipients_is_usage_error:
  fixes w :: "'p world"
  assumes "drop 2 argv = []"
  shows "\<exists>r. main prov latency argv w = Some r
     \<and> status r = 1
     \<and> service (final r) = service w
     \<and> trace (final r) = trace w @ [ConsoleError
         [js ''Please provide at least one email address as a command line argument'']]
     \<and> calls (trace (final r)) = calls (trace w)"
  by (simp add: main_usage [OF assms] calls_def)

theorem no_recipients_is_usage_error_witness:
  "\<exists>r. main flaky (\<lambda>k. 0) [js ''node'', js ''index.js''] fresh = Some r
     \<and> status r = 1
     \<and> trace (final r) = [ConsoleError
         [js ''Please provide at least one email address as a command line argument'']]
     \<and> calls (trace (final r)) = []"
proof -
  have "drop 2 [js ''node'', js ''index.js''] = []"
    by simp
  from no_recipients_is_usage_error [OF this, of flaky "\<lambda>k. 0" fresh]
  obtain r where
    "main flaky (\<lambda>k. 0) [js ''node'', js ''index.js''] fresh = Some r"
    "status r = 1"
    "trace (final r) = trace fresh @ [ConsoleError
       [js ''Please provide at least one email address as a command line argument'']]"
    "calls (trace (final r)) = calls (trace fresh)"
    by blast
  then show ?thesis
    by (intro exI [of _ r]) (simp add: fresh_def)
qed

section \<open>ip\_recon.sh: the pattern and the words of the claim agree\<close>

lemma lang_upto_cls:
  "w \<in> lang (upto_n n (Cls P)) \<longleftrightarrow> length w \<le> n \<and> (\<forall>c \<in> set w. P c)"
proof (induction n arbitrary: w)
  case 0
  show ?case by auto
next
  case (Suc n)
  show ?case
  proof (cases w)
    case Nil
    then show ?thesis by simp
  next
    case (Cons d v)
    have "d # v \<in> conc {[c] | c. P c} (lang (upto_n n (Cls P))) \<longleftrightarrow>
        P d \<and> v \<in> lang (upto_n n (Cls P))"
      by (auto simp: conc_cons_iff)
    then show ?thesis
      unfolding Cons by (auto simp: Suc.IH)
  qed
qed

lemma alnum_is_alnum_hyphen: "alnum c \<Longrightarrow> alnum_hyphen c"
  by (simp add: alnum_hyphen_def)

lemma lang_labelRegex: "w \<in> lang labelRegex \<longleftrightarrow> label_ok w"
proof (cases w)
  case Nil
  then show ?thesis
    by (simp add: labelRegex_def label_ok_def conc_iff)
next
  case (Cons a v)
  show ?thesis
  proof (cases "v = []")
    case True
    with Cons show ?thesis
      by (auto simp: labelRegex_def label_ok_def conc_cons_iff alnum_is_alnum_hyphen)
  next
    case False
    then obtain m z where v: "v = m @ [z]"
      by (metis append_butlast_last_id)
    have "m @ [z] \<in> conc (lang (upto_n 61 (Cls alnum_hyphen))) {[c] | c. alnum c} \<longleftrightarrow>
        m \<in> lang (upto_n 61 (Cls alnum_hyphen)) \<and> alnum z"
    proof
      assume "m @ [z] \<in> conc (lang (upto_n 61 (Cls alnum_hyphen))) {[c] | c. alnum c}"
      then obtain u c where "m @ [z] = u @ [c]" "u \<in> lang (upto_n 61 (Cls alnum_hyphen))" "alnum c"
        by (auto simp: conc_iff)
      then show "m \<in> lang (upto_n 61 (Cls alnum_hyphen)) \<and> alnum z"
        by simp
    next
      assume "m \<in> lang (upto_n 61 (Cls alnum_hyphen)) \<and> alnum z"
      then have "\<exists>u v. m @ [z] = u @ v \<and> u \<in> lang (upto_n 61 (Cls alnum_hyphen))
          \<and> v \<in> {[c] | c. alnum c}"
        by (intro exI [of _ m] exI [of _ "[z]"]) simp
      then show "m @ [z] \<in> conc (lang (upto_n 61 (Cls alnum_hyphen))) {[c] | c. alnum c}"
        by (simp only: conc_iff)
    qed
    then have "m @ [z] \<in> conc (lang (upto_n 61 (Cls alnum_hyphen))) {[c] | c. alnum c} \<longleftrightarrow>
        length m \<le> 61 \<and> (\<forall>c \<in> set m. alnum_hyphen c) \<and> alnum z"
      by (simp add: lang_upto_cls)
    moreover have "a # m @ [z] \<in> conc {[c] | c. alnum c} X \<longleftrightarrow> alnum a \<and> m @ [z] \<in> X" for X
      by (auto simp: conc_cons_iff)
    moreover have "a # m @ [z] \<notin> {[c] | c. alnum c}"
      by simp
    ultimately have "w \<in> lang labelRegex \<longleftrightarrow>
        alnum a \<and> length m \<le> 61 \<and> (\<forall>c \<in> set m. alnum_hyphen c) \<and> alnum z"
      unfolding Cons v labelRegex_def lang.simps by (simp only: Un_iff simp_thms)
    moreover have "label_ok w \<longleftrightarrow>
        alnum a \<and> length m \<le> 61 \<and> (\<forall>c \<in> set m. alnum_hyphen c) \<and> alnum z"
      unfolding Cons v by (auto simp: label_ok_def list_all_iff alnum_is_alnum_hyphen)
    ultimately show ?thesis by simp
  qed
qed

lemma dot_not_alnum: "\<not> alnum (CHR ''.'')" "\<not> alnum_hyphen (CHR ''.'')"
  by (simp_all add: alnum_hyphen_def alnum_def)

lemma label_ok_no_dot: "label_ok l \<Longrightarrow> CHR ''.'' \<notin> set l"
  using dot_not_alnum(2) by (auto simp: label_ok_def list_all_iff)

lemma label_ok_last: "label_ok l \<Longrightarrow> l \<noteq> [] \<and> last l \<noteq> CHR ''.''"
  using dot_not_alnum(1) by (auto simp: label_ok_def)

subsection \<open>Splitting at a separator\<close>

lemma split_on_not_Nil: "split_on c s \<noteq> []"
  by (induction s) (auto split: list.splits)

lemma split_on_free: "c \<notin> set l \<Longrightarrow> split_on c l = [l]"
  by (induction l) auto

lemma split_on_first: "c \<notin> set l \<Longrightarrow> split_on c (l @ c # rest) = l # split_on c rest"
  by (induction l) auto

lemma split_on_joined:
  "c \<notin> set l \<Longrightarrow> \<forall>m \<in> set ls. c \<notin> set m \<Longrightarrow>
     split_on c (l @ concat (map ((#) c) ls)) = l # ls"
proof (induction ls arbitrary: l)
  case Nil
  then show ?case by (simp add: split_on_free)
next
  case (Cons m ls)
  from Cons.prems have "split_on c (m @ concat (map ((#) c) ls)) = m # ls"
    by (intro Cons.IH) simp_all
  with Cons.prems(1) show ?case
    by (simp add: split_on_first)
qed

lemma split_on_rejoin:
  "\<exists>l ls. split_on c s = l # ls \<and> s = l @ concat (map ((#) c) ls)"
proof (induction s)
  case Nil
  show ?case by simp
next
  case (Cons x s)
  then obtain l ls where "split_on c s = l # ls" "s = l @ concat (map ((#) c) ls)"
    by blast
  then show ?case
    by (cases "x = c") auto
qed

lemma star_sep:
  "w \<in> star (conc {[c]} L) \<longleftrightarrow> (\<exists>ls. (\<forall>l \<in> set ls. l \<in> L) \<and> w = concat (map ((#) c) ls))"
proof
  assume "w \<in> star (conc {[c]} L)"
  then show "\<exists>ls. (\<forall>l \<in> set ls. l \<in> L) \<and> w = concat (map ((#) c) ls)"
  proof (induction rule: star.induct)
    case star_nil
    have "(\<forall>l \<in> set []. l \<in> L) \<and> [] = concat (map ((#) c) [])" by simp
    then show ?case by blast
  next
    case (star_app u v)
    from star_app.hyps(1) obtain l where l: "u = c # l" "l \<in> L"
      by (auto simp: conc_iff)
    from star_app.IH obtain ls where ls: "\<forall>l \<in> set ls. l \<in> L" "v = concat (map ((#) c) ls)"
      by blast
    from l ls have "(\<forall>m \<in> set (l # ls). m \<in> L) \<and> u @ v = concat (map ((#) c) (l # ls))"
      by simp
    then show ?case by blast
  qed
next
  assume "\<exists>ls. (\<forall>l \<in> set ls. l \<in> L) \<and> w = concat (map ((#) c) ls)"
  then obtain ls where "\<forall>l \<in> set ls. l \<in> L" "w = concat (map ((#) c) ls)"
    by blast
  then show "w \<in> star (conc {[c]} L)"
  proof (induction ls arbitrary: w)
    case Nil
    then show ?case by (simp add: star.star_nil)
  next
    case (Cons l ls)
    have "c # l \<in> conc {[c]} L"
      using Cons.prems(1) by (simp add: conc_cons_iff)
    moreover have "concat (map ((#) c) ls) \<in> star (conc {[c]} L)"
      using Cons.prems(1) by (intro Cons.IH) simp_all
    ultimately have "(c # l) @ concat (map ((#) c) ls) \<in> star (conc {[c]} L)"
      by (rule star.star_app)
    with Cons.prems(2) show ?case by simp
  qed
qed

lemma matches_hostRegex: "matches hostRegex s \<longleftrightarrow> domain_name_ok s"
proof -
  let ?dot = "CHR ''.''"
  have lang: "s \<in> lang hostRegex \<longleftrightarrow>
      (\<exists>l ls. s = l @ concat (map ((#) ?dot) ls) \<and> label_ok l \<and> (\<forall>m \<in> set ls. label_ok m))"
  proof -
    have "lang (Cls (\<lambda>c. c = ?dot)) = {[?dot]}"
      by auto
    then have "lang hostRegex = conc {l. label_ok l} (star (conc {[?dot]} {l. label_ok l}))"
      by (simp add: hostRegex_def lang_labelRegex [symmetric])
    then show ?thesis
      by (auto simp: conc_iff star_sep)
  qed
  show ?thesis
  proof
    assume "matches hostRegex s"
    then obtain l ls where s: "s = l @ concat (map ((#) ?dot) ls)"
      and ok: "label_ok l" "\<forall>m \<in> set ls. label_ok m"
      using lang by (auto simp: matches_lang)
    from ok have "split_on ?dot s = l # ls"
      unfolding s by (intro split_on_joined) (simp_all add: label_ok_no_dot)
    with ok show "domain_name_ok s"
      by (simp add: domain_name_ok_def list_all_iff)
  next
    assume ok: "domain_name_ok s"
    from split_on_rejoin [of ?dot s] obtain l ls where
      "split_on ?dot s = l # ls" "s = l @ concat (map ((#) ?dot) ls)"
      by blast
    with ok have "s \<in> lang hostRegex"
      unfolding lang by (auto simp: domain_name_ok_def list_all_iff)
    then show "matches hostRegex s"
      by (simp add: matches_lang)
  qed
qed

lemma domain_name_ok_last: "domain_name_ok s \<Longrightarrow> s \<noteq> [] \<and> last s \<noteq> CHR ''.''"
proof -
  assume ok: "domain_name_ok s"
  from split_on_rejoin [of "CHR ''.''" s] obtain l ls where
    sp: "split_on (CHR ''.'') s = l # ls" and s: "s = l @ concat (map ((#) (CHR ''.'')) ls)"
    by blast
  from ok sp have all: "label_ok l" "\<forall>m \<in> set ls. label_ok m"
    by (simp_all add: domain_name_ok_def list_all_iff)
  show ?thesis
  proof (cases ls rule: rev_cases)
    case Nil
    with s all(1) show ?thesis
      by (simp add: label_ok_last)
  next
    case (snoc ms m)
    with all(2) have "m \<noteq> [] \<and> last m \<noteq> CHR ''.''"
      by (simp add: label_ok_last)
    with s snoc show ?thesis
      by simp
  qed
qed

section \<open>ip\_recon.sh: what the loop writes\<close>

lemma out_loop_eq:
  "out_loop tmp out =
     out @ map strip_dot (filter (\<lambda>h. h \<noteq> [] \<and> domain_name_ok (strip_dot h)) tmp)"
  by (induction tmp arbitrary: out) (simp_all add: Let_def matches_hostRegex)

text \<open>
  Claim C10. What the loop adds to \<^verbatim>\<open>out.txt\<close> is, in order, the stripped form of every
  non-empty line of \<^verbatim>\<open>tmp.txt\<close> whose stripped form is a domain name in the words of the
  claim, and nothing else. So every added line is a line of \<^verbatim>\<open>tmp.txt\<close> without its one
  trailing full stop, is such a domain name, is not empty and does not end in a full
  stop, and a line whose stripped form is not such a name adds nothing.
\<close>

theorem out_lines_are_domain_names:
  "\<exists>added.
     out_loop tmp out = out @ added
     \<and> added = map strip_dot (filter (\<lambda>h. h \<noteq> [] \<and> domain_name_ok (strip_dot h)) tmp)
     \<and> (\<forall>l \<in> set added.
          l \<noteq> [] \<and> last l \<noteq> CHR ''.'' \<and> domain_name_ok l
          \<and> (\<exists>h \<in> set tmp. h \<noteq> [] \<and> l = strip_dot h))"
  by (auto simp: out_loop_eq domain_name_ok_last)

theorem out_lines_are_domain_names_witness:
  "out_loop [''example.com.'', '''', ''-bad.example'', ''a..b'', ''host-1.example.org'', ''.'']
     [''old.example''] = [''old.example'', ''example.com'', ''host-1.example.org'']"
proof -
  let ?tmp = "[''example.com.'', '''', ''-bad.example'', ''a..b'', ''host-1.example.org'', ''.'']"
  from out_lines_are_domain_names [of ?tmp "[''old.example'']"]
  have "out_loop ?tmp [''old.example''] =
      [''old.example''] @ map strip_dot (filter (\<lambda>h. h \<noteq> [] \<and> domain_name_ok (strip_dot h)) ?tmp)"
    by blast
  also have "\<dots> = [''old.example'', ''example.com'', ''host-1.example.org'']"
    by (simp add: strip_dot_def domain_name_ok_def label_ok_def alnum_hyphen_def alnum_def)
  finally show ?thesis .
qed

end
